theory Spec2Isabelle
  imports Main
begin

section \<open>Values that can be thrown\<close>

text \<open>
  The source handles failures of type \<^verbatim>\<open>unknown\<close>.  Three shapes matter to it:
  an object that carries a \<^verbatim>\<open>str\<close> property (the interface \<^verbatim>\<open>DetailedError\<close>:
  \<^verbatim>\<open>str\<close>, \<^verbatim>\<open>hash\<close>, optional \<^verbatim>\<open>message\<close>, optional \<^verbatim>\<open>error\<close>), an instance of \<^verbatim>\<open>Error\<close>
  (with its \<^verbatim>\<open>name\<close> and \<^verbatim>\<open>message\<close>), and anything else (for instance a thrown string).
  The opaque \<^verbatim>\<open>hash\<close> token is a string here.
\<close>

datatype failure =
    Detailed (str: string) (hash: string) (message: "string option") (error: "failure option")
  | ErrorObject (name: string) (error_message: string)
  | Opaque string

text \<open>
  Modelled from the spec: \<^verbatim>\<open>isDetailedError\<close> is imported from \<^verbatim>\<open>./utils\<close>, which is not among
  the sources.  The spec describes it as the test whether the failure already carries the
  structured fields (\<^verbatim>\<open>str\<close>, \<^verbatim>\<open>hash\<close>).
\<close>

definition isDetailedError :: "failure \<Rightarrow> bool" where
  "isDetailedError err = (case err of Detailed s h m e \<Rightarrow> True | ErrorObject n m \<Rightarrow> False | Opaque v \<Rightarrow> False)"

text \<open>\<^verbatim>\<open>error instanceof Error\<close>.\<close>

definition instanceofError :: "failure \<Rightarrow> bool" where
  "instanceofError err = (case err of Detailed s h m e \<Rightarrow> False | ErrorObject n m \<Rightarrow> True | Opaque v \<Rightarrow> False)"

section \<open>Observable effects\<close>

text \<open>
  Every call by which run leaves the module is recorded, in program order, as an event: the
  calls of the logger at the levels info, warn and error, the calls of the global hook
  \<^verbatim>\<open>mermaid.parseError\<close> (with two arguments or with one), the writes to an element, the calls of
  the engine, of the per-element callback and of the binding function.  Elements are named by
  natural numbers (their reference identity).
\<close>

datatype level = Info | Warn | Error

datatype logged = Text string | Thrown failure | TextThrown string failure

datatype event =
    Log level logged
  | ParseError2 string string
  | ParseError1 failure
  | SetProcessed nat
  | EngineRender string string nat
  | SetInnerHTML nat string
  | PostRenderCallback string
  | BindFunctions nat

section \<open>handleError\<close>

text \<open>
  \<^verbatim>\<open>handleError(error, errors, parseError)\<close>: logs the failure as a warning, calls the hook when
  one is given, and pushes a \<^verbatim>\<open>DetailedError\<close> onto \<^verbatim>\<open>errors\<close> for the two recognised
  shapes.  The spread \<^verbatim>\<open>{ ...error, message: error.str, error }\<close> copies \<^verbatim>\<open>str\<close> and \<^verbatim>\<open>hash\<close>
  and overwrites \<^verbatim>\<open>message\<close> and \<^verbatim>\<open>error\<close>.  The hook is taken to return normally; its
  presence is the boolean \<open>parseError\<close>.  The result is the new \<^verbatim>\<open>errors\<close> array and the events.
\<close>

definition handleError :: "failure \<Rightarrow> failure list \<Rightarrow> bool \<Rightarrow> failure list \<times> event list" where
  "handleError err errors parseError =
     (if isDetailedError err then
        (errors @ [Detailed (str err) (hash err) (Some (str err)) (Some err)],
         Log Warn (Thrown err) # (if parseError then [ParseError2 (str err) (hash err)] else []))
      else
        (if instanceofError err then
           errors @ [Detailed (error_message err) (name err) (Some (error_message err)) (Some err)]
         else errors,
         Log Warn (Thrown err) # (if parseError then [ParseError1 err] else [])))"

section \<open>The document and the collaborators of run\<close>

text \<open>
  An element of the document tree, as far as the module reads and writes it: its \<^verbatim>\<open>id\<close>, the
  value of its attribute \<^verbatim>\<open>data-processed\<close> (\<open>None\<close> when \<^verbatim>\<open>getAttribute\<close> returns null) and
  its \<^verbatim>\<open>innerHTML\<close>.  The document is a store from element references to elements, so that a
  node list may name one element twice.
\<close>

record element =
  el_id :: string
  data_processed :: "string option"
  innerHTML :: string

type_synonym document = "nat \<Rightarrow> element"

text \<open>\<^verbatim>\<open>RenderResult\<close>: the svg code and the optional binding function, which may throw.\<close>

record RenderResult =
  svg :: string
  bindFunctions :: "(nat \<Rightarrow> failure option) option"

text \<open>
  What run consumes from outside the file, taken as parameters: whether \<^verbatim>\<open>mermaid.parseError\<close>
  is set; the engine's \<^verbatim>\<open>mermaidAPI.render(id, txt, element)\<close>, whose promise rejects (\<open>Inl\<close>)
  or fulfils (\<open>Inr\<close>); \<^verbatim>\<open>document.querySelectorAll\<close>; the text pipeline
  \<^verbatim>\<open>dedent(utils.entityDecode(txt)).trim().replace(...)\<close>; and the id generator, given by the
  string its k-th call of \<^verbatim>\<open>next()\<close> contributes to the id.  The engine, the callback and the
  binding function are taken not to write the document themselves; the logger, the hook, the
  query, the text pipeline and the id generator are taken to return normally.
\<close>

record env =
  parseError :: bool
  mermaidAPI_render :: "string \<Rightarrow> string \<Rightarrow> nat \<Rightarrow> failure + RenderResult"
  querySelectorAll :: "string \<Rightarrow> nat list"
  to_text :: "string \<Rightarrow> string"
  idGenerator_next :: "nat \<Rightarrow> string"

text \<open>\<^verbatim>\<open>RunOptions\<close>: every field is optional.  A callback returns \<open>Some e\<close> when it fails with \<open>e\<close>.\<close>

record RunOptions =
  querySelector :: "string option"
  nodes :: "nat list option"
  postRenderCallback :: "(string \<Rightarrow> failure option) option"
  suppressErrors :: "bool option"

text \<open>JavaScript truthiness of an optional string and of an optional boolean.\<close>

definition truthy_string :: "string option \<Rightarrow> bool" where
  "truthy_string v = (case v of None \<Rightarrow> False | Some s \<Rightarrow> s \<noteq> [])"

definition truthy_bool :: "bool option \<Rightarrow> bool" where
  "truthy_bool v = (case v of None \<Rightarrow> False | Some b \<Rightarrow> b)"

section \<open>runThrowsErrors\<close>

text \<open>The variables of one pass: the document, the events so far, the array \<^verbatim>\<open>errors\<close> and the
  number of ids the generator has handed out.\<close>

record scan =
  doc :: document
  trace :: "event list"
  errors :: "failure list"
  ids :: nat

text \<open>
  The \<^verbatim>\<open>try\<close> block of the loop body (lines 161 to 169): the engine call, the write of
  \<^verbatim>\<open>innerHTML\<close>, the callback and the binding function.  The second component is the value the
  block throws, if any.
\<close>

definition try_render ::
  "env \<Rightarrow> (string \<Rightarrow> failure option) option \<Rightarrow> string \<Rightarrow> string \<Rightarrow> nat \<Rightarrow> scan \<Rightarrow> scan \<times> failure option" where
  "try_render E cb ident txt el s =
     (let s1 = s\<lparr>trace := trace s @ [EngineRender ident txt el]\<rparr> in
      case mermaidAPI_render E ident txt el of
        Inl e \<Rightarrow> (s1, Some e)
      | Inr r \<Rightarrow>
          (let s2 = s1\<lparr>doc := (doc s1)(el := (doc s1 el)\<lparr>innerHTML := svg r\<rparr>),
                        trace := trace s1 @ [SetInnerHTML el (svg r)]\<rparr>;
               s3 = (case cb of None \<Rightarrow> s2
                     | Some f \<Rightarrow> s2\<lparr>trace := trace s2 @ [PostRenderCallback ident]\<rparr>)
           in case (case cb of None \<Rightarrow> None | Some f \<Rightarrow> f ident) of
                Some e \<Rightarrow> (s3, Some e)
              | None \<Rightarrow>
                  (case bindFunctions r of
                     None \<Rightarrow> (s3, None)
                   | Some b \<Rightarrow> (s3\<lparr>trace := trace s3 @ [BindFunctions el]\<rparr>, b el))))"

text \<open>The \<^verbatim>\<open>catch\<close> clause of the loop body (line 171).\<close>

definition catch_render :: "env \<Rightarrow> scan \<times> failure option \<Rightarrow> scan" where
  "catch_render E r =
     (case snd r of
        None \<Rightarrow> fst r
      | Some e \<Rightarrow>
          (fst r)\<lparr>errors := fst (handleError e (errors (fst r)) (parseError E)),
                   trace := trace (fst r) @ snd (handleError e (errors (fst r)) (parseError E))\<rparr>)"

text \<open>One iteration of the \<^verbatim>\<open>for\<close> loop (lines 139 to 173).\<close>

definition render_element :: "env \<Rightarrow> (string \<Rightarrow> failure option) option \<Rightarrow> nat \<Rightarrow> scan \<Rightarrow> scan" where
  "render_element E cb el s =
     (let s0 = s\<lparr>trace := trace s @ [Log Info (Text (''Rendering diagram: '' @ el_id (doc s el)))]\<rparr> in
      if truthy_string (data_processed (doc s0 el)) then s0
      else
        (let s1 = s0\<lparr>doc := (doc s0)(el := (doc s0 el)\<lparr>data_processed := Some ''true''\<rparr>),
                      trace := trace s0 @ [SetProcessed el]\<rparr>;
             ident = ''mermaid-'' @ idGenerator_next E (ids s1);
             s2 = s1\<lparr>ids := Suc (ids s1)\<rparr>;
             txt = to_text E (innerHTML (doc s2 el))
         in catch_render E (try_render E cb ident txt el s2)))"

primrec process_nodes :: "env \<Rightarrow> (string \<Rightarrow> failure option) option \<Rightarrow> nat list \<Rightarrow> scan \<Rightarrow> scan" where
  "process_nodes E cb [] s = s"
| "process_nodes E cb (el # els) s = process_nodes E cb els (render_element E cb el s)"

text \<open>Lines 116 to 123: the node list, or the error thrown when there is none.\<close>

definition nodesToProcess :: "env \<Rightarrow> RunOptions \<Rightarrow> failure + nat list" where
  "nodesToProcess E opts =
     (case nodes opts of
        Some ns \<Rightarrow> Inr ns
      | None \<Rightarrow>
          (case querySelector opts of
             Some q \<Rightarrow>
               if truthy_string (Some q) then Inr (querySelectorAll E q)
               else Inl (ErrorObject ''Error'' ''Nodes and querySelector are both undefined'')
           | None \<Rightarrow> Inl (ErrorObject ''Error'' ''Nodes and querySelector are both undefined'')))"

definition start_scan :: "document \<Rightarrow> scan" where
  "start_scan d = \<lparr>doc = d, trace = [], errors = [], ids = 0\<rparr>"

text \<open>
  \<^verbatim>\<open>runThrowsErrors\<close> on a document: what it throws (\<open>Inl\<close>) or that it returns, the document
  afterwards and the events of the call.  The debug log lines (with the call of
  \<^verbatim>\<open>utils.detectInit\<close>, whose result is only logged) and the copy of \<^verbatim>\<open>startOnLoad\<close> into the
  site configuration touch neither the document nor the errors and are left out.
\<close>

definition runThrowsErrors :: "env \<Rightarrow> RunOptions \<Rightarrow> document \<Rightarrow> (failure + unit) \<times> document \<times> event list" where
  "runThrowsErrors E opts d =
     (case nodesToProcess E opts of
        Inl e \<Rightarrow> (Inl e, d, [])
      | Inr ns \<Rightarrow>
          (let s = process_nodes E (postRenderCallback opts) ns (start_scan d) in
           (case errors s of [] \<Rightarrow> Inr () | e # rest \<Rightarrow> Inl e, doc s, trace s)))"

section \<open>run\<close>

text \<open>The default value of the parameter \<^verbatim>\<open>options\<close>, used when the caller passes none.\<close>

definition default_options :: RunOptions where
  "default_options =
     \<lparr>querySelector = Some ''.mermaid'', nodes = None, postRenderCallback = None, suppressErrors = None\<rparr>"

text \<open>The \<^verbatim>\<open>catch\<close> clause of \<^verbatim>\<open>run\<close> (lines 93 to 104) for a thrown value \<open>e\<close>.\<close>

definition run_catch :: "env \<Rightarrow> RunOptions \<Rightarrow> failure \<Rightarrow> (failure + unit) \<times> event list" where
  "run_catch E opts e =
     (let t1 = (if isDetailedError e then [Log Error (Text (str e))] else []);
          t2 = (if parseError E then [ParseError1 e] else [])
      in if \<not> truthy_bool (suppressErrors opts)
         then (Inl e, t1 @ t2 @ [Log Error (Text ''Use the suppressErrors option to suppress these errors'')])
         else (Inr (), t1 @ t2))"

definition run :: "env \<Rightarrow> RunOptions option \<Rightarrow> document \<Rightarrow> (failure + unit) \<times> document \<times> event list" where
  "run E options d =
     (let opts = (case options of None \<Rightarrow> default_options | Some given \<Rightarrow> given) in
      case runThrowsErrors E opts d of
        (Inr u, d', t) \<Rightarrow> (Inr (), d', t)
      | (Inl e, d', t) \<Rightarrow> (fst (run_catch E opts e), d', t @ snd (run_catch E opts e)))"

section \<open>The execution queue of parse and render\<close>

text \<open>
  \<^verbatim>\<open>parse\<close> and \<^verbatim>\<open>render\<close> (lines 311 to 361) wrap one engine call in a closure \<^verbatim>\<open>performCall\<close>,
  push it on \<^verbatim>\<open>executionQueue\<close> and call \<^verbatim>\<open>executeQueue\<close> (lines 284 to 302).  JavaScript runs
  one job at a time, and a job runs until it returns or reaches an \<^verbatim>\<open>await\<close>; the module is
  therefore a state machine whose steps are the jobs:
  \<^item> a caller calls \<^verbatim>\<open>parse\<close> or \<^verbatim>\<open>render\<close> (\<open>Submit\<close>): the push, and \<^verbatim>\<open>executeQueue\<close> up to its
    first \<^verbatim>\<open>await\<close>;
  \<^item> the promise of an engine call settles (\<open>Settle\<close>): one of the two handlers given to
    \<^verbatim>\<open>then\<close> runs;
  \<^item> the loop of \<^verbatim>\<open>executeQueue\<close> continues after \<^verbatim>\<open>await f()\<close> (\<open>Resume\<close>), up to the next
    \<^verbatim>\<open>await\<close> or to the end of the function;
  \<^item> \<^verbatim>\<open>setParseErrorHandler\<close> is called.

  A unit of the queue is the closure \<^verbatim>\<open>performCall\<close>: the number of the submission that made it
  (its identity) and the engine call it holds (of type \<open>'c\<close>: the arguments of
  \<^verbatim>\<open>mermaidAPI.parse\<close> or \<^verbatim>\<open>mermaidAPI.render\<close>).  The engine's answers are of type \<open>'v\<close>.
  What the module does to the outside is recorded as effects: the engine call made by a unit,
  \<^verbatim>\<open>res\<close> and \<^verbatim>\<open>rej\<close> on the promise of \<^verbatim>\<open>performCall\<close>, \<^verbatim>\<open>resolve\<close> and \<^verbatim>\<open>reject\<close> on the caller's
  promise, \<^verbatim>\<open>log.error\<close> and the hook \<^verbatim>\<open>mermaid.parseError\<close>.
\<close>

datatype ('c, 'v) effect =
    Call nat 'c
  | Res nat 'v
  | Resolve nat 'v
  | LogError string failure
  | Hook failure
  | Rej nat failure
  | Reject nat failure

text \<open>
  The state: the two module variables \<^verbatim>\<open>executionQueue\<close> and \<^verbatim>\<open>executionQueueRunning\<close>; the
  unit whose promise the suspended loop awaits; the engine calls that have been made and have
  not settled; the promises of \<^verbatim>\<open>performCall\<close> and of the callers that have settled, with their
  outcome (\<open>Inl\<close> rejected, \<open>Inr\<close> fulfilled); the number of submissions so far; whether
  \<^verbatim>\<open>mermaid.parseError\<close> is set; and the effects so far.
\<close>

record ('c, 'v) queue_state =
  executionQueue :: "(nat \<times> 'c) list"
  executionQueueRunning :: bool
  awaited :: "nat option"
  in_progress :: "nat list"
  settled :: "nat \<Rightarrow> (failure + 'v) option"
  delivered :: "nat \<Rightarrow> (failure + 'v) option"
  submitted :: nat
  parseErrorHandler :: bool
  effects :: "('c, 'v) effect list"

definition initial :: "bool \<Rightarrow> ('c, 'v) queue_state" where
  "initial h =
     \<lparr>executionQueue = [], executionQueueRunning = False, awaited = None, in_progress = [],
      settled = (\<lambda>n. None), delivered = (\<lambda>n. None), submitted = 0, parseErrorHandler = h, effects = []\<rparr>"

text \<open>
  The \<^verbatim>\<open>while\<close> loop from its head (line 291) to the next \<^verbatim>\<open>await\<close> or to line 301: with an
  empty queue the flag is cleared; otherwise the first unit is shifted off and called, which
  makes its engine call, and the loop waits for it.
\<close>

definition loop :: "('c, 'v) queue_state \<Rightarrow> ('c, 'v) queue_state" where
  "loop s =
     (case executionQueue s of
        [] \<Rightarrow> s\<lparr>executionQueueRunning := False, awaited := None\<rparr>
      | f # rest \<Rightarrow>
          s\<lparr>executionQueue := rest, awaited := Some (fst f), in_progress := in_progress s @ [fst f],
            effects := effects s @ [Call (fst f) (snd f)]\<rparr>)"

text \<open>\<^verbatim>\<open>executeQueue\<close> from its call to its first \<^verbatim>\<open>await\<close> (lines 286 to 295).\<close>

definition executeQueue :: "('c, 'v) queue_state \<Rightarrow> ('c, 'v) queue_state" where
  "executeQueue s =
     (if executionQueueRunning s then s else loop (s\<lparr>executionQueueRunning := True\<rparr>))"

text \<open>\<^verbatim>\<open>parse\<close> and \<^verbatim>\<open>render\<close>: lines 332 and 333, and lines 358 and 359.\<close>

definition submit :: "'c \<Rightarrow> ('c, 'v) queue_state \<Rightarrow> ('c, 'v) queue_state" where
  "submit c s =
     executeQueue (s\<lparr>executionQueue := executionQueue s @ [(submitted s, c)], submitted := Suc (submitted s)\<rparr>)"

text \<open>
  The handlers of lines 318 to 329 and 344 to 355, run when the engine call of unit \<open>n\<close>
  settles.  Nothing happens when unit \<open>n\<close> has no engine call in progress.
\<close>

definition settle :: "nat \<Rightarrow> failure + 'v \<Rightarrow> ('c, 'v) queue_state \<Rightarrow> ('c, 'v) queue_state" where
  "settle n outcome s =
     (if n \<in> set (in_progress s) then
        (case outcome of
           Inr r \<Rightarrow>
             s\<lparr>in_progress := removeAll n (in_progress s),
               settled := (settled s)(n := Some (Inr r)),
               delivered := (delivered s)(n := Some (Inr r)),
               effects := effects s @ [Res n r, Resolve n r]\<rparr>
         | Inl e \<Rightarrow>
             s\<lparr>in_progress := removeAll n (in_progress s),
               settled := (settled s)(n := Some (Inl e)),
               delivered := (delivered s)(n := Some (Inl e)),
               effects := effects s @ [LogError ''Error parsing'' e] @ (if parseErrorHandler s then [Hook e] else [])
                            @ [Rej n e, Reject n e]\<rparr>)
      else s)"

text \<open>
  The loop after \<^verbatim>\<open>await f()\<close> (lines 295 to 299), once the awaited promise has settled: a
  rejection is caught and logged, then the loop goes back to its head.
\<close>

definition resume :: "('c, 'v) queue_state \<Rightarrow> ('c, 'v) queue_state" where
  "resume s =
     (case awaited s of
        None \<Rightarrow> s
      | Some n \<Rightarrow>
          (case settled s n of
             None \<Rightarrow> s
           | Some (Inr r) \<Rightarrow> loop s
           | Some (Inl e) \<Rightarrow> loop (s\<lparr>effects := effects s @ [LogError ''Error executing queue'' e]\<rparr>)))"

datatype ('c, 'v) input =
    Submit 'c
  | Settle nat "failure + 'v"
  | Resume
  | SetParseErrorHandler

primrec step :: "('c, 'v) queue_state \<Rightarrow> ('c, 'v) input \<Rightarrow> ('c, 'v) queue_state" where
  "step s (Submit c) = submit c s"
| "step s (Settle n outcome) = settle n outcome s"
| "step s Resume = resume s"
| "step s SetParseErrorHandler = s\<lparr>parseErrorHandler := True\<rparr>"

definition exec :: "('c, 'v) input list \<Rightarrow> ('c, 'v) queue_state \<Rightarrow> ('c, 'v) queue_state" where
  "exec ins s = foldl step s ins"

text \<open>
  An environment in which every engine call settles: one round lets the engine call in progress
  (if any) settle with the outcome \<open>outcome n\<close> and then lets the loop continue; \<open>drive\<close> runs
  \<open>k\<close> rounds without any new submission.
\<close>

definition settle_and_resume :: "(nat \<Rightarrow> failure + 'v) \<Rightarrow> ('c, 'v) queue_state \<Rightarrow> ('c, 'v) queue_state" where
  "settle_and_resume outcome s =
     step (case in_progress s of [] \<Rightarrow> s | n # ns \<Rightarrow> step s (Settle n (outcome n))) Resume"

primrec drive :: "(nat \<Rightarrow> failure + 'v) \<Rightarrow> nat \<Rightarrow> ('c, 'v) queue_state \<Rightarrow> ('c, 'v) queue_state" where
  "drive outcome 0 s = s"
| "drive outcome (Suc k) s = drive outcome k (settle_and_resume outcome s)"

section \<open>Notions used to state the properties\<close>

text \<open>The options \<^verbatim>\<open>run\<close> works with: the caller's, or the default when there are none.\<close>

definition given_options :: "RunOptions option \<Rightarrow> RunOptions" where
  "given_options options = (case options of None \<Rightarrow> default_options | Some given \<Rightarrow> given)"

text \<open>The error of line 122.\<close>

definition source_error :: failure where
  "source_error = ErrorObject ''Error'' ''Nodes and querySelector are both undefined''"

text \<open>The elements for which the engine was called, in the order of the calls.\<close>

definition render_targets :: "event list \<Rightarrow> nat list" where
  "render_targets t = concat (map (\<lambda>e. case e of EngineRender i x el \<Rightarrow> [el] | _ \<Rightarrow> []) t)"

text \<open>
  Every engine call in \<open>t\<close> is for an element of \<open>M\<close> or for an element whose attribute was set
  earlier in \<open>t\<close>.
\<close>

primrec marks_first :: "nat set \<Rightarrow> event list \<Rightarrow> bool" where
  "marks_first M [] = True"
| "marks_first M (e # t) =
     (case e of
        SetProcessed el \<Rightarrow> marks_first (insert el M) t
      | EngineRender i x el \<Rightarrow> el \<in> M \<and> marks_first M t
      | _ \<Rightarrow> marks_first M t)"

text \<open>
  The invariant of the loop of \<^verbatim>\<open>runThrowsErrors\<close> over a document that was \<open>d0\<close> at the start:
  an element the engine was called for carries the marker; the engine was called at most once
  for an element; the marker was set before the call; an element without a call is as it was;
  an element with a failed call differs from the start by the marker only, and one with a
  successful call by the marker and the new content.
\<close>

definition scan_inv :: "env \<Rightarrow> document \<Rightarrow> scan \<Rightarrow> bool" where
  "scan_inv E d0 s =
     ((\<forall>a \<in> set (render_targets (trace s)). truthy_string (data_processed (doc s a)))
      \<and> distinct (render_targets (trace s))
      \<and> marks_first {} (trace s)
      \<and> (\<forall>a. a \<notin> set (render_targets (trace s)) \<longrightarrow> doc s a = d0 a)
      \<and> (\<forall>i x a e. EngineRender i x a \<in> set (trace s) \<longrightarrow> mermaidAPI_render E i x a = Inl e \<longrightarrow>
            doc s a = (d0 a)\<lparr>data_processed := Some ''true''\<rparr>)
      \<and> (\<forall>i x a r. EngineRender i x a \<in> set (trace s) \<longrightarrow> mermaidAPI_render E i x a = Inr r \<longrightarrow>
            doc s a = (d0 a)\<lparr>data_processed := Some ''true'', innerHTML := svg r\<rparr>))"

text \<open>
  A Detailed Error as \<^verbatim>\<open>handleError\<close> builds it: its message is its \<^verbatim>\<open>str\<close>, and the failure it
  carries has one of the two recognised shapes.
\<close>

definition normalised :: "failure \<Rightarrow> bool" where
  "normalised e =
     (case e of
        Detailed s h m orig \<Rightarrow>
          m = Some s \<and> (case orig of None \<Rightarrow> False | Some f \<Rightarrow> isDetailedError f \<or> instanceofError f)
      | ErrorObject n m \<Rightarrow> False
      | Opaque v \<Rightarrow> False)"

text \<open>The engine calls among the effects, and the calls submitted by a list of inputs.\<close>

definition calls :: "('c, 'v) effect list \<Rightarrow> (nat \<times> 'c) list" where
  "calls es = concat (map (\<lambda>e. case e of Call n c \<Rightarrow> [(n, c)] | _ \<Rightarrow> []) es)"

definition submissions :: "('c, 'v) input list \<Rightarrow> 'c list" where
  "submissions ins = concat (map (\<lambda>i. case i of Submit c \<Rightarrow> [c] | _ \<Rightarrow> []) ins)"

text \<open>What the loop of \<^verbatim>\<open>executeQueue\<close> reads and writes.\<close>

definition control :: "('c, 'v) queue_state \<Rightarrow> (nat \<times> 'c) list \<times> bool \<times> nat option \<times> nat list" where
  "control s = (executionQueue s, executionQueueRunning s, awaited s, in_progress s)"

text \<open>
  The invariant of the queue: the units called so far, followed by the pending ones, are the
  submissions in their order; only a unit that was called has a settled promise; while the flag
  is set the loop awaits a unit that was called, and either that unit's engine call is the only
  one in progress or it has settled and none is in progress; while the flag is clear nothing is
  pending, in progress or awaited.
\<close>

definition queue_inv :: "('c, 'v) queue_state \<Rightarrow> bool" where
  "queue_inv s =
     (map fst (calls (effects s) @ executionQueue s) = [0..<submitted s]
      \<and> (\<forall>n. settled s n \<noteq> None \<longrightarrow> n \<in> fst ` set (calls (effects s)))
      \<and> (executionQueueRunning s \<longrightarrow>
            (\<exists>n. awaited s = Some n \<and> n \<in> fst ` set (calls (effects s))
                  \<and> ((in_progress s = [n] \<and> settled s n = None) \<or> (in_progress s = [] \<and> settled s n \<noteq> None))))
      \<and> (\<not> executionQueueRunning s \<longrightarrow>
            executionQueue s = [] \<and> in_progress s = [] \<and> awaited s = None))"

subsection \<open>A small page for the concrete runs\<close>

text \<open>
  Every element has the id \<open>d\<close>, no marker and the content \<open>graph\<close>.  The engine rejects the
  render of element 1 with a structured failure, of element 2 with a \<^verbatim>\<open>TypeError\<close>, of element 3
  with a thrown string, and fulfils every other.  The selector finds the elements 0 and 1.
\<close>

definition demo_doc :: document where
  "demo_doc = (\<lambda>a. \<lparr>el_id = ''d'', data_processed = None, innerHTML = ''graph''\<rparr>)"

definition demo_env :: env where
  "demo_env =
     \<lparr>parseError = False,
      mermaidAPI_render =
        (\<lambda>i x el. if el = 1 then Inl (Detailed ''bad syntax'' ''X1'' None None)
                   else if el = 2 then Inl (ErrorObject ''TypeError'' ''boom'')
                   else if el = 3 then Inl (Opaque ''plain'')
                   else Inr \<lparr>svg = ''svg'', bindFunctions = None\<rparr>),
      querySelectorAll = (\<lambda>q. [0, 1]),
      to_text = (\<lambda>x. x),
      idGenerator_next = (\<lambda>k. if k = 0 then ''0'' else if k = 1 then ''1'' else ''2'')\<rparr>"

definition failing_callback :: "string \<Rightarrow> failure option" where
  "failing_callback i = Some (ErrorObject ''Error'' ''cb'')"

definition demo_nodes :: "nat list \<Rightarrow> RunOptions" where
  "demo_nodes ns = \<lparr>querySelector = None, nodes = Some ns, postRenderCallback = None, suppressErrors = None\<rparr>"

section \<open>Properties of handleError\<close>

text \<open>
  C5.  A failure that carries \<^verbatim>\<open>str\<close> and \<^verbatim>\<open>hash\<close> is normalised to a Detailed Error that copies
  both, has \<^verbatim>\<open>message\<close> equal to \<^verbatim>\<open>str\<close> and carries the original failure, and the hook, when
  present, is called with \<^verbatim>\<open>(str, hash)\<close>.  An \<^verbatim>\<open>Error\<close> with a message is normalised to a
  Detailed Error whose \<^verbatim>\<open>str\<close> and \<^verbatim>\<open>message\<close> are that message and whose \<^verbatim>\<open>hash\<close> is the error's
  name, and the hook is called with the failure itself.  In both cases the failure is logged as a
  warning first.  The two examples of the specification are the last two conjuncts.
\<close>

theorem handleError_normalizes:
  "handleError (Detailed s h m e) errs hook =
     (errs @ [Detailed s h (Some s) (Some (Detailed s h m e))],
      Log Warn (Thrown (Detailed s h m e)) # (if hook then [ParseError2 s h] else []))
   \<and> handleError (ErrorObject n msg) errs hook =
     (errs @ [Detailed msg n (Some msg) (Some (ErrorObject n msg))],
      Log Warn (Thrown (ErrorObject n msg)) # (if hook then [ParseError1 (ErrorObject n msg)] else []))
   \<and> fst (handleError (Detailed ''bad syntax'' ''X1'' None None) [] hook) =
       [Detailed ''bad syntax'' ''X1'' (Some ''bad syntax'') (Some (Detailed ''bad syntax'' ''X1'' None None))]
   \<and> fst (handleError (ErrorObject ''TypeError'' ''boom'') [] hook) =
       [Detailed ''boom'' ''TypeError'' (Some ''boom'') (Some (ErrorObject ''TypeError'' ''boom''))]"
  by (simp add: handleError_def isDetailedError_def instanceofError_def)

theorem handleError_normalizes_witness:
  "handleError (Detailed ''bad syntax'' ''X1'' None None) [] True =
     ([Detailed ''bad syntax'' ''X1'' (Some ''bad syntax'') (Some (Detailed ''bad syntax'' ''X1'' None None))],
      [Log Warn (Thrown (Detailed ''bad syntax'' ''X1'' None None)), ParseError2 ''bad syntax'' ''X1''])
   \<and> handleError (ErrorObject ''TypeError'' ''boom'') [] True =
     ([Detailed ''boom'' ''TypeError'' (Some ''boom'') (Some (ErrorObject ''TypeError'' ''boom''))],
      [Log Warn (Thrown (ErrorObject ''TypeError'' ''boom'')), ParseError1 (ErrorObject ''TypeError'' ''boom'')])"
  using handleError_normalizes [of "''bad syntax''" "''X1''" None None "[]" True "''TypeError''" "''boom''"]
  by simp

section \<open>Lemmas about one pass of run\<close>

lemma render_targets_simps [simp]:
  "render_targets [] = []"
  "render_targets (t @ u) = render_targets t @ render_targets u"
  "render_targets (EngineRender i x el # t) = el # render_targets t"
  "render_targets (Log l m # t) = render_targets t"
  "render_targets (ParseError2 a b # t) = render_targets t"
  "render_targets (ParseError1 f # t) = render_targets t"
  "render_targets (SetProcessed el # t) = render_targets t"
  "render_targets (SetInnerHTML el v # t) = render_targets t"
  "render_targets (PostRenderCallback i # t) = render_targets t"
  "render_targets (BindFunctions el # t) = render_targets t"
  by (simp_all add: render_targets_def)

lemma handleError_no_render [simp]: "render_targets (snd (handleError e errs hook)) = []"
  by (simp add: handleError_def)

lemma try_render_trace:
  "\<exists>tl. trace (fst (try_render E cb i x el s)) = trace s @ EngineRender i x el # tl \<and> render_targets tl = []
      \<and> (\<forall>a. SetProcessed a \<notin> set tl)"
  by (auto simp: try_render_def Let_def split: sum.splits option.splits)

lemma try_render_dom:
  "doc (fst (try_render E cb i x el s)) =
     (case mermaidAPI_render E i x el of Inl e \<Rightarrow> doc s
      | Inr r \<Rightarrow> (doc s)(el := (doc s el)\<lparr>innerHTML := svg r\<rparr>))"
  by (auto simp: try_render_def Let_def split: sum.splits option.splits)

lemma catch_render_dom [simp]: "doc (catch_render E r) = doc (fst r)"
  by (simp add: catch_render_def split: option.splits)

lemma catch_render_trace:
  "\<exists>tl. trace (catch_render E r) = trace (fst r) @ tl \<and> render_targets tl = [] \<and> (\<forall>a. SetProcessed a \<notin> set tl)"
  by (auto simp: catch_render_def handleError_def split: option.splits)

lemma render_element_skip:
  "truthy_string (data_processed (doc s el)) \<Longrightarrow>
   render_element E cb el s = s\<lparr>trace := trace s @ [Log Info (Text (''Rendering diagram: '' @ el_id (doc s el)))]\<rparr>"
  by (simp add: render_element_def Let_def)

lemma render_element_dom:
  "doc (render_element E cb el s) =
     (if truthy_string (data_processed (doc s el)) then doc s
      else (case mermaidAPI_render E (''mermaid-'' @ idGenerator_next E (ids s)) (to_text E (innerHTML (doc s el))) el of
              Inl e \<Rightarrow> (doc s)(el := (doc s el)\<lparr>data_processed := Some ''true''\<rparr>)
            | Inr r \<Rightarrow> (doc s)(el := (doc s el)\<lparr>data_processed := Some ''true'', innerHTML := svg r\<rparr>)))"
  by (auto simp: render_element_def Let_def try_render_dom split: sum.splits)

lemma render_element_trace:
  "\<not> truthy_string (data_processed (doc s el)) \<Longrightarrow>
   \<exists>tl. trace (render_element E cb el s) =
          trace s @ [Log Info (Text (''Rendering diagram: '' @ el_id (doc s el))), SetProcessed el,
                     EngineRender (''mermaid-'' @ idGenerator_next E (ids s)) (to_text E (innerHTML (doc s el))) el] @ tl
        \<and> render_targets tl = [] \<and> (\<forall>a. SetProcessed a \<notin> set tl)"
proof -
  assume np: "\<not> truthy_string (data_processed (doc s el))"
  let ?s2 = "s\<lparr>trace := trace s @ [Log Info (Text (''Rendering diagram: '' @ el_id (doc s el)))],
               doc := (doc s)(el := (doc s el)\<lparr>data_processed := Some ''true''\<rparr>),
               trace := (trace s @ [Log Info (Text (''Rendering diagram: '' @ el_id (doc s el)))]) @ [SetProcessed el],
               ids := Suc (ids s)\<rparr>"
  let ?i = "''mermaid-'' @ idGenerator_next E (ids s)"
  let ?x = "to_text E (innerHTML (doc s el))"
  have re: "render_element E cb el s = catch_render E (try_render E cb ?i ?x el ?s2)"
    using np by (simp add: render_element_def Let_def)
  obtain t1 where t1: "trace (fst (try_render E cb ?i ?x el ?s2)) = trace ?s2 @ EngineRender ?i ?x el # t1"
     "render_targets t1 = []" "\<forall>a. SetProcessed a \<notin> set t1"
    using try_render_trace by blast
  obtain t2 where t2: "trace (catch_render E (try_render E cb ?i ?x el ?s2)) = trace (fst (try_render E cb ?i ?x el ?s2)) @ t2"
     "render_targets t2 = []" "\<forall>a. SetProcessed a \<notin> set t2"
    using catch_render_trace by blast
  show ?thesis
    apply (rule exI[of _ "t1 @ t2"])
    using re t1 t2 by simp
qed

lemma marks_first_mono: "marks_first M t \<Longrightarrow> M \<subseteq> N \<Longrightarrow> marks_first N t"
proof (induction t arbitrary: M N)
  case Nil then show ?case by simp
next
  case (Cons e t)
  show ?case
  proof (cases e)
    case (SetProcessed el)
    with Cons.prems have "marks_first (insert el M) t" by simp
    moreover have "insert el M \<subseteq> insert el N" using Cons.prems by auto
    ultimately have "marks_first (insert el N) t" by (rule Cons.IH)
    then show ?thesis using SetProcessed by simp
  next
    case (EngineRender i x el)
    with Cons.prems have "el \<in> M" "marks_first M t" by simp_all
    then have "el \<in> N" "marks_first N t" using Cons.prems Cons.IH by auto
    then show ?thesis using EngineRender by simp
  qed (use Cons in \<open>auto\<close>)
qed

lemma marks_first_no_render: "render_targets t = [] \<Longrightarrow> marks_first M t"
proof (induction t arbitrary: M)
  case Nil then show ?case by simp
next
  case (Cons e t)
  then show ?case by (cases e) (simp_all)
qed

lemma marks_first_append:
  "marks_first M t \<Longrightarrow> marks_first (M \<union> {el. SetProcessed el \<in> set t}) u \<Longrightarrow> marks_first M (t @ u)"
proof (induction t arbitrary: M)
  case Nil then show ?case by simp
next
  case (Cons e t)
  show ?case
  proof (cases e)
    case (SetProcessed el)
    have "marks_first (insert el M) t" using Cons.prems SetProcessed by simp
    moreover have "marks_first (insert el M \<union> {a. SetProcessed a \<in> set t}) u"
      using Cons.prems(2) SetProcessed by (rule_tac marks_first_mono) auto
    ultimately have "marks_first (insert el M) (t @ u)" by (rule Cons.IH)
    then show ?thesis using SetProcessed by simp
  next
    case (EngineRender i x el)
    have "el \<in> M" "marks_first M t" using Cons.prems EngineRender by simp_all
    moreover have "marks_first (M \<union> {a. SetProcessed a \<in> set t}) u"
      using Cons.prems(2) EngineRender by (rule_tac marks_first_mono) auto
    ultimately show ?thesis using EngineRender Cons.IH by simp
  next
    case (Log l m)
    have "marks_first M t" using Cons.prems Log by simp
    moreover have "marks_first (M \<union> {a. SetProcessed a \<in> set t}) u"
      using Cons.prems(2) Log by (rule_tac marks_first_mono) auto
    ultimately show ?thesis using Log Cons.IH by simp
  qed (use Cons in \<open>auto elim: marks_first_mono\<close>)
qed

lemma marks_first_split:
  "marks_first M t \<Longrightarrow> t = pre @ EngineRender i x el # post \<Longrightarrow> el \<in> M \<or> SetProcessed el \<in> set pre"
proof (induction pre arbitrary: t M)
  case Nil then show ?case by simp
next
  case (Cons e pre)
  then obtain t' where t': "t = e # t'" "t' = pre @ EngineRender i x el # post" by simp
  show ?case
  proof (cases e)
    case (SetProcessed a)
    then have "marks_first (insert a M) t'" using Cons.prems t' by simp
    from Cons.IH[OF this t'(2)] show ?thesis using SetProcessed by auto
  next
    case (EngineRender j y a)
    then have "marks_first M t'" using Cons.prems t' by simp
    from Cons.IH[OF this t'(2)] show ?thesis by auto
  qed (use Cons.prems t' Cons.IH[of M t'] in \<open>auto\<close>)
qed

lemma render_in_targets: "EngineRender i x a \<in> set t \<Longrightarrow> a \<in> set (render_targets t)"
  by (induction t) (auto simp: render_targets_def)

lemma no_targets_no_render: "render_targets t = [] \<Longrightarrow> EngineRender i x a \<notin> set t"
  using render_in_targets by fastforce

lemma scan_inv_start: "scan_inv E d (start_scan d)"
  by (simp add: scan_inv_def start_scan_def)

lemma truthy_true [simp]: "truthy_string (Some ''true'')"
  by (simp add: truthy_string_def)

lemma scan_inv_step:
  assumes inv: "scan_inv E d0 s"
  shows "scan_inv E d0 (render_element E cb el s)"
proof (cases "truthy_string (data_processed (doc s el))")
  case True
  have "marks_first {} (trace s @ [Log Info (Text (''Rendering diagram: '' @ el_id (doc s el)))])"
    using inv by (intro marks_first_append) (simp_all add: scan_inv_def)
  then show ?thesis
    using inv True unfolding render_element_skip[OF True] scan_inv_def by simp
next
  case False
  let ?i = "''mermaid-'' @ idGenerator_next E (ids s)"
  let ?x = "to_text E (innerHTML (doc s el))"
  let ?s' = "render_element E cb el s"
  obtain tl where tl: "trace ?s' = trace s @ [Log Info (Text (''Rendering diagram: '' @ el_id (doc s el))), SetProcessed el,
                     EngineRender ?i ?x el] @ tl" "render_targets tl = []" "\<forall>a. SetProcessed a \<notin> set tl"
    using render_element_trace[OF False] by blast
  have nel: "el \<notin> set (render_targets (trace s))" using inv False by (auto simp: scan_inv_def)
  then have del: "doc s el = d0 el" using inv by (simp add: scan_inv_def)
  have tg: "render_targets (trace ?s') = render_targets (trace s) @ [el]" using tl by simp
  have dm: "doc ?s' = (case mermaidAPI_render E ?i ?x el of
              Inl e \<Rightarrow> (doc s)(el := (doc s el)\<lparr>data_processed := Some ''true''\<rparr>)
            | Inr r \<Rightarrow> (doc s)(el := (doc s el)\<lparr>data_processed := Some ''true'', innerHTML := svg r\<rparr>))"
    using False by (simp add: render_element_dom)
  have c1: "\<forall>a \<in> set (render_targets (trace ?s')). truthy_string (data_processed (doc ?s' a))"
    using inv tg dm by (auto simp: scan_inv_def split: sum.splits)
  have c2: "distinct (render_targets (trace ?s'))" using inv tg nel by (simp add: scan_inv_def)
  have "marks_first ({} \<union> {a. SetProcessed a \<in> set (trace s)}) ([Log Info (Text (''Rendering diagram: '' @ el_id (doc s el))), SetProcessed el,
                     EngineRender ?i ?x el] @ tl)"
    using marks_first_no_render[OF tl(2)] by simp
  then have c3: "marks_first {} (trace ?s')"
    unfolding tl(1) using inv by (intro marks_first_append) (simp_all add: scan_inv_def)
  have c4: "\<forall>a. a \<notin> set (render_targets (trace ?s')) \<longrightarrow> doc ?s' a = d0 a"
    using inv tg dm by (auto simp: scan_inv_def split: sum.splits)
  have old: "a \<noteq> el \<and> doc ?s' a = doc s a" if "EngineRender i x a \<in> set (trace s)" for i x a
  proof -
    have "a \<noteq> el" using that nel render_in_targets by blast
    then show ?thesis using dm by (simp split: sum.splits)
  qed
  have cases: "EngineRender i x a \<in> set (trace s) \<or> (i = ?i \<and> x = ?x \<and> a = el)"
    if "EngineRender i x a \<in> set (trace ?s')" for i x a
    using that tl no_targets_no_render[OF tl(2)] by auto
  have c5: "\<forall>i x a e. EngineRender i x a \<in> set (trace ?s') \<longrightarrow> mermaidAPI_render E i x a = Inl e \<longrightarrow>
            doc ?s' a = (d0 a)\<lparr>data_processed := Some ''true''\<rparr>"
  proof (intro allI impI)
    fix i x a e assume m: "EngineRender i x a \<in> set (trace ?s')" and r: "mermaidAPI_render E i x a = Inl e"
    from cases[OF m] show "doc ?s' a = (d0 a)\<lparr>data_processed := Some ''true''\<rparr>"
    proof
      assume o: "EngineRender i x a \<in> set (trace s)"
      then show ?thesis using old[OF o] inv r by (simp add: scan_inv_def)
    next
      assume "i = ?i \<and> x = ?x \<and> a = el"
      then show ?thesis using dm del r by simp
    qed
  qed
  have c6: "\<forall>i x a r. EngineRender i x a \<in> set (trace ?s') \<longrightarrow> mermaidAPI_render E i x a = Inr r \<longrightarrow>
            doc ?s' a = (d0 a)\<lparr>data_processed := Some ''true'', innerHTML := svg r\<rparr>"
  proof (intro allI impI)
    fix i x a r assume m: "EngineRender i x a \<in> set (trace ?s')" and r: "mermaidAPI_render E i x a = Inr r"
    from cases[OF m] show "doc ?s' a = (d0 a)\<lparr>data_processed := Some ''true'', innerHTML := svg r\<rparr>"
    proof
      assume o: "EngineRender i x a \<in> set (trace s)"
      then show ?thesis using old[OF o] inv r by (simp add: scan_inv_def)
    next
      assume "i = ?i \<and> x = ?x \<and> a = el"
      then show ?thesis using dm del r by simp
    qed
  qed
  show ?thesis unfolding scan_inv_def using c1 c2 c3 c4 c5 c6 by blast
qed

lemma scan_inv_loop: "scan_inv E d0 s \<Longrightarrow> scan_inv E d0 (process_nodes E cb ns s)"
  by (induction ns arbitrary: s) (simp_all add: scan_inv_step)

lemma render_element_keeps_processed:
  "truthy_string (data_processed (doc s a)) \<Longrightarrow> truthy_string (data_processed (doc (render_element E cb el s) a))"
  by (auto simp: render_element_dom split: sum.splits)

lemma render_element_marks: "truthy_string (data_processed (doc (render_element E cb el s) el))"
  by (auto simp: render_element_dom split: sum.splits)

lemma process_nodes_keeps_processed:
  "truthy_string (data_processed (doc s a)) \<Longrightarrow> truthy_string (data_processed (doc (process_nodes E cb ns s) a))"
  by (induction ns arbitrary: s) (simp_all add: render_element_keeps_processed)

lemma process_nodes_marks_all:
  "a \<in> set ns \<Longrightarrow> truthy_string (data_processed (doc (process_nodes E cb ns s) a))"
proof (induction ns arbitrary: s)
  case Nil then show ?case by simp
next
  case (Cons el ns)
  show ?case
  proof (cases "a = el")
    case True
    then show ?thesis using process_nodes_keeps_processed[OF render_element_marks] by simp
  next
    case False
    then show ?thesis using Cons by simp
  qed
qed

lemma process_nodes_all_skipped:
  "\<forall>a \<in> set ns. truthy_string (data_processed (doc s a)) \<Longrightarrow>
   process_nodes E cb ns s =
     s\<lparr>trace := trace s @ map (\<lambda>a. Log Info (Text (''Rendering diagram: '' @ el_id (doc s a)))) ns\<rparr>"
proof (induction ns arbitrary: s)
  case Nil then show ?case by simp
next
  case (Cons el ns)
  have el: "truthy_string (data_processed (doc s el))" using Cons.prems by simp
  let ?s' = "s\<lparr>trace := trace s @ [Log Info (Text (''Rendering diagram: '' @ el_id (doc s el)))]\<rparr>"
  have "\<forall>a \<in> set ns. truthy_string (data_processed (doc ?s' a))" using Cons.prems by simp
  from Cons.IH[OF this] show ?case by (simp add: render_element_skip[OF el])
qed

lemma runThrowsErrors_cases:
  assumes "runThrowsErrors E opts d = (r, d', t)"
  shows "(\<exists>e. nodesToProcess E opts = Inl e \<and> r = Inl e \<and> d' = d \<and> t = [])
       \<or> (\<exists>ns. nodesToProcess E opts = Inr ns
             \<and> d' = doc (process_nodes E (postRenderCallback opts) ns (start_scan d))
             \<and> t = trace (process_nodes E (postRenderCallback opts) ns (start_scan d))
             \<and> r = (case errors (process_nodes E (postRenderCallback opts) ns (start_scan d)) of
                      [] \<Rightarrow> Inr () | e # rest \<Rightarrow> Inl e))"
  using assms by (auto simp: runThrowsErrors_def Let_def split: sum.splits)

lemma run_catch_no_render:
  "render_targets (snd (run_catch E opts e)) = [] \<and> (\<forall>a. SetProcessed a \<notin> set (snd (run_catch E opts e)))"
  by (simp add: run_catch_def Let_def)

lemma run_cases:
  assumes "run E options d = (r, d', t)"
  shows "\<exists>r0 t0 tl. runThrowsErrors E (given_options options) d = (r0, d', t0) \<and> t = t0 @ tl
            \<and> render_targets tl = [] \<and> (\<forall>a. SetProcessed a \<notin> set tl)"
proof (cases "runThrowsErrors E (given_options options) d")
  case (fields r0 d0 t0)
  show ?thesis
  proof (cases r0)
    case (Inl e)
    then have "d' = d0" "t = t0 @ snd (run_catch E (given_options options) e)"
      using assms fields by (simp_all add: run_def given_options_def Let_def)
    then show ?thesis using fields run_catch_no_render by blast
  next
    case (Inr u)
    then have "d' = d0" "t = t0 @ []"
      using assms fields by (simp_all add: run_def given_options_def Let_def)
    then show ?thesis using fields by (metis render_targets_simps(1) empty_iff list.set(1))
  qed
qed

lemma run_scan:
  assumes "run E options d = (r, d', t)"
  shows "(d' = d \<and> render_targets t = [] \<and> (\<forall>a. SetProcessed a \<notin> set t)
          \<and> (\<exists>e. nodesToProcess E (given_options options) = Inl e))
       \<or> (\<exists>ns s tl. nodesToProcess E (given_options options) = Inr ns
            \<and> s = process_nodes E (postRenderCallback (given_options options)) ns (start_scan d)
            \<and> d' = doc s \<and> t = trace s @ tl \<and> render_targets tl = [] \<and> (\<forall>a. SetProcessed a \<notin> set tl))"
proof -
  obtain r0 t0 tl where a: "runThrowsErrors E (given_options options) d = (r0, d', t0)" "t = t0 @ tl"
     "render_targets tl = []" "\<forall>a. SetProcessed a \<notin> set tl"
    using run_cases[OF assms] by blast
  from runThrowsErrors_cases[OF a(1)] show ?thesis
  proof
    assume "\<exists>e. nodesToProcess E (given_options options) = Inl e \<and> r0 = Inl e \<and> d' = d \<and> t0 = []"
    then show ?thesis using a by auto
  next
    assume "\<exists>ns. nodesToProcess E (given_options options) = Inr ns
             \<and> d' = doc (process_nodes E (postRenderCallback (given_options options)) ns (start_scan d))
             \<and> t0 = trace (process_nodes E (postRenderCallback (given_options options)) ns (start_scan d))
             \<and> r0 = (case errors (process_nodes E (postRenderCallback (given_options options)) ns (start_scan d)) of
                      [] \<Rightarrow> Inr () | e # rest \<Rightarrow> Inl e)"
    then show ?thesis using a by auto
  qed
qed

lemma handleError_normalised:
  "list_all normalised errs \<Longrightarrow> list_all normalised (fst (handleError e errs hook))"
  by (cases e) (simp_all add: handleError_def isDetailedError_def instanceofError_def normalised_def)

lemma try_render_errors [simp]: "errors (fst (try_render E cb i x el s)) = errors s"
  by (simp add: try_render_def Let_def split: sum.splits option.splits)

lemma process_nodes_append:
  "process_nodes E cb (ns1 @ ns2) s = process_nodes E cb ns2 (process_nodes E cb ns1 s)"
  by (induction ns1 arbitrary: s) simp_all

lemma catch_render_errors_extend: "\<exists>more. errors (catch_render E r) = errors (fst r) @ more"
  by (cases "snd r") (auto simp: catch_render_def handleError_def)

lemma render_element_errors_extend: "\<exists>more. errors (render_element E cb el s) = errors s @ more"
proof (cases "truthy_string (data_processed (doc s el))")
  case True
  then show ?thesis by (simp add: render_element_skip)
next
  case False
  then show ?thesis
    using catch_render_errors_extend[of E "try_render E cb (''mermaid-'' @ idGenerator_next E (ids s))
        (to_text E (innerHTML (doc s el))) el
        (s\<lparr>trace := trace s @ [Log Info (Text (''Rendering diagram: '' @ el_id (doc s el)))],
           doc := (doc s)(el := (doc s el)\<lparr>data_processed := Some ''true''\<rparr>),
           trace := (trace s @ [Log Info (Text (''Rendering diagram: '' @ el_id (doc s el)))]) @ [SetProcessed el],
           ids := Suc (ids s)\<rparr>)"]
    by (simp add: render_element_def Let_def)
qed

lemma process_nodes_errors_extend: "\<exists>more. errors (process_nodes E cb ns s) = errors s @ more"
proof (induction ns arbitrary: s)
  case Nil
  then show ?case by simp
next
  case (Cons el ns)
  obtain m1 where m1: "errors (render_element E cb el s) = errors s @ m1"
    using render_element_errors_extend by blast
  obtain m2 where "errors (process_nodes E cb ns (render_element E cb el s)) = errors (render_element E cb el s) @ m2"
    using Cons.IH by blast
  then show ?case using m1 by simp
qed

lemma render_element_targets:
  "render_targets (trace (render_element E cb el s)) =
     render_targets (trace s) @ (if truthy_string (data_processed (doc s el)) then [] else [el])"
proof (cases "truthy_string (data_processed (doc s el))")
  case True
  then show ?thesis by (simp add: render_element_skip)
next
  case False
  then show ?thesis using render_element_trace[OF False, of E cb] by auto
qed

lemma process_nodes_targets_grow:
  "a \<in> set (render_targets (trace s)) \<Longrightarrow> a \<in> set (render_targets (trace (process_nodes E cb ns s)))"
  by (induction ns arbitrary: s) (simp_all add: render_element_targets)

lemma process_nodes_renders_unmarked:
  "a \<in> set ns \<Longrightarrow> \<not> truthy_string (data_processed (doc s a)) \<Longrightarrow>
   a \<in> set (render_targets (trace (process_nodes E cb ns s)))"
proof (induction ns arbitrary: s)
  case Nil
  then show ?case by simp
next
  case (Cons el ns)
  show ?case
  proof (cases "a = el")
    case True
    then have "a \<in> set (render_targets (trace (render_element E cb el s)))"
      using Cons.prems(2) by (simp add: render_element_targets)
    then show ?thesis using process_nodes_targets_grow by simp
  next
    case False
    then have "doc (render_element E cb el s) a = doc s a"
      by (simp add: render_element_dom split: sum.splits)
    then show ?thesis using Cons False by simp
  qed
qed

lemma render_element_normalised:
  "list_all normalised (errors s) \<Longrightarrow> list_all normalised (errors (render_element E cb el s))"
  by (simp add: render_element_def Let_def catch_render_def handleError_normalised split: option.splits)

lemma process_nodes_normalised:
  "list_all normalised (errors s) \<Longrightarrow> list_all normalised (errors (process_nodes E cb ns s))"
  by (induction ns arbitrary: s) (simp_all add: render_element_normalised)

lemma nodesToProcess_error: "nodesToProcess E opts = Inl e \<Longrightarrow> e = source_error"
  by (auto simp: nodesToProcess_def source_error_def split: option.splits if_splits)

lemma runThrowsErrors_raises:
  assumes "fst (runThrowsErrors E opts d) = Inl e"
  shows "e = source_error \<or> normalised e"
proof (cases "nodesToProcess E opts")
  case (Inl x)
  then show ?thesis using assms nodesToProcess_error[OF Inl] by (simp add: runThrowsErrors_def)
next
  case (Inr ns)
  let ?s = "process_nodes E (postRenderCallback opts) ns (start_scan d)"
  have "list_all normalised (errors ?s)"
    by (rule process_nodes_normalised) (simp add: start_scan_def)
  moreover have "\<exists>rest. errors ?s = e # rest"
    using assms Inr by (simp add: runThrowsErrors_def Let_def split: list.splits)
  ultimately show ?thesis by auto
qed

lemma run_raises:
  assumes "fst (run E options d) = Inl e"
  shows "fst (runThrowsErrors E (given_options options) d) = Inl e"
proof (cases "runThrowsErrors E (given_options options) d")
  case (fields r0 d0 t0)
  then show ?thesis using assms
    by (cases r0) (auto simp: run_def Let_def given_options_def run_catch_def split: if_splits)
qed

lemma render_element_errors_callback:
  assumes np: "\<not> truthy_string (data_processed (doc s el))"
    and rd: "mermaidAPI_render E (''mermaid-'' @ idGenerator_next E (ids s)) (to_text E (innerHTML (doc s el))) el = Inr res"
    and cb: "cb = Some f" "f (''mermaid-'' @ idGenerator_next E (ids s)) = Some e"
  shows "errors (render_element E cb el s) = fst (handleError e (errors s) (parseError E))"
  using assms by (simp add: render_element_def Let_def try_render_def catch_render_def)

lemma render_element_errors_bind:
  assumes np: "\<not> truthy_string (data_processed (doc s el))"
    and rd: "mermaidAPI_render E (''mermaid-'' @ idGenerator_next E (ids s)) (to_text E (innerHTML (doc s el))) el = Inr res"
    and cb: "cb = None \<or> (\<exists>f. cb = Some f \<and> f (''mermaid-'' @ idGenerator_next E (ids s)) = None)"
    and bd: "bindFunctions res = Some b" "b el = Some e"
  shows "errors (render_element E cb el s) = fst (handleError e (errors s) (parseError E))"
  using assms by (auto simp: render_element_def Let_def try_render_def catch_render_def)


section \<open>Properties of run\<close>

lemmas demo_simps = run_def runThrowsErrors_def nodesToProcess_def run_catch_def Let_def
  isDetailedError_def instanceofError_def truthy_bool_def truthy_string_def default_options_def
  start_scan_def render_element_def try_render_def catch_render_def handleError_def
  demo_env_def demo_doc_def demo_nodes_def

text \<open>
  C2.  In the events of a call of \<^verbatim>\<open>run\<close>, every engine call for an element comes after the
  write of that element's attribute \<^verbatim>\<open>data-processed\<close>.  An element that carries the marker (a
  truthy value of the attribute) is passed over: the iteration only writes its log line.  When
  \<^verbatim>\<open>run\<close> is called a second time with the same options on the document the first call left,
  no element is the target of two engine calls over both calls; the second call makes no engine
  call, sets no attribute and leaves the document as it was.  This holds whether the engine
  calls of the first call failed or not.  (Both calls resolve the same node list: the list of
  the options, or what the selector finds, which is the same in both calls.)
\<close>

theorem run_twice_processes_once:
  assumes r1: "run E options d = (r1, d1, t1)" and r2: "run E options d1 = (r2, d2, t2)"
  shows "(\<forall>pre i x el post. t1 = pre @ EngineRender i x el # post \<longrightarrow> SetProcessed el \<in> set pre)
       \<and> (\<forall>cb el s. truthy_string (data_processed (doc s el)) \<longrightarrow>
             render_element E cb el s =
               s\<lparr>trace := trace s @ [Log Info (Text (''Rendering diagram: '' @ el_id (doc s el)))]\<rparr>)
       \<and> distinct (render_targets (t1 @ t2))
       \<and> render_targets t2 = [] \<and> (\<forall>a. SetProcessed a \<notin> set t2) \<and> d2 = d1"
proof -
  let ?o = "given_options options"
  have skip: "\<forall>cb el s. truthy_string (data_processed (doc s el)) \<longrightarrow>
             render_element E cb el s =
               s\<lparr>trace := trace s @ [Log Info (Text (''Rendering diagram: '' @ el_id (doc s el)))]\<rparr>"
    using render_element_skip by blast
  from run_scan[OF r1] show ?thesis
  proof
    assume a: "d1 = d \<and> render_targets t1 = [] \<and> (\<forall>a. SetProcessed a \<notin> set t1)
          \<and> (\<exists>e. nodesToProcess E ?o = Inl e)"
    then have b: "d2 = d1 \<and> render_targets t2 = [] \<and> (\<forall>a. SetProcessed a \<notin> set t2)"
      using run_scan[OF r2] by auto
    have "\<forall>pre i x el post. t1 = pre @ EngineRender i x el # post \<longrightarrow> SetProcessed el \<in> set pre"
      using a by auto
    then show ?thesis using a b skip by simp
  next
    assume "\<exists>ns s tl. nodesToProcess E ?o = Inr ns
            \<and> s = process_nodes E (postRenderCallback ?o) ns (start_scan d)
            \<and> d1 = doc s \<and> t1 = trace s @ tl \<and> render_targets tl = [] \<and> (\<forall>a. SetProcessed a \<notin> set tl)"
    then obtain ns s tl where a: "nodesToProcess E ?o = Inr ns"
       "s = process_nodes E (postRenderCallback ?o) ns (start_scan d)"
       "d1 = doc s" "t1 = trace s @ tl" "render_targets tl = []" by blast
    have inv: "scan_inv E d s" unfolding a(2) by (intro scan_inv_loop scan_inv_start)
    have "marks_first {} t1" unfolding a(4)
      using inv marks_first_no_render[OF a(5)] by (intro marks_first_append) (simp_all add: scan_inv_def)
    then have c1: "\<forall>pre i x el post. t1 = pre @ EngineRender i x el # post \<longrightarrow> SetProcessed el \<in> set pre"
      using marks_first_split by fastforce
    have d1: "distinct (render_targets t1)" using inv a by (simp add: scan_inv_def)
    have allp: "\<forall>a \<in> set ns. truthy_string (data_processed (doc (start_scan d1) a))"
      using process_nodes_marks_all a by (simp add: start_scan_def)
    let ?s2 = "process_nodes E (postRenderCallback ?o) ns (start_scan d1)"
    have s2: "doc ?s2 = d1" "render_targets (trace ?s2) = []" "\<forall>a. SetProcessed a \<notin> set (trace ?s2)"
      unfolding process_nodes_all_skipped[OF allp]
      by (auto simp: start_scan_def render_targets_def)
    from run_scan[OF r2] a(1) obtain tl2 where "d2 = doc ?s2" "t2 = trace ?s2 @ tl2" "render_targets tl2 = []"
       "\<forall>a. SetProcessed a \<notin> set tl2" by auto
    then have b: "d2 = d1 \<and> render_targets t2 = [] \<and> (\<forall>a. SetProcessed a \<notin> set t2)"
      using s2 by auto
    show ?thesis using c1 skip d1 b by simp
  qed
qed

theorem run_twice_processes_once_witness:
  "snd (snd (run demo_env (Some (demo_nodes [0, 1, 0])) demo_doc)) =
     [Log Info (Text ''Rendering diagram: d''), SetProcessed 0, EngineRender ''mermaid-0'' ''graph'' 0,
      SetInnerHTML 0 ''svg'',
      Log Info (Text ''Rendering diagram: d''), SetProcessed 1, EngineRender ''mermaid-1'' ''graph'' 1,
      Log Warn (Thrown (Detailed ''bad syntax'' ''X1'' None None)),
      Log Info (Text ''Rendering diagram: d''),
      Log Error (Text ''bad syntax''),
      Log Error (Text ''Use the suppressErrors option to suppress these errors'')]
   \<and> snd (snd (run demo_env (Some (demo_nodes [0, 1, 0]))
                 (fst (snd (run demo_env (Some (demo_nodes [0, 1, 0])) demo_doc))))) =
     [Log Info (Text ''Rendering diagram: d''), Log Info (Text ''Rendering diagram: d''),
      Log Info (Text ''Rendering diagram: d'')]
   \<and> distinct (render_targets
        (snd (snd (run demo_env (Some (demo_nodes [0, 1, 0])) demo_doc)) @
         snd (snd (run demo_env (Some (demo_nodes [0, 1, 0]))
                 (fst (snd (run demo_env (Some (demo_nodes [0, 1, 0])) demo_doc)))))))"
proof -
  let ?o = "Some (demo_nodes [0, 1, 0])"
  let ?r1 = "run demo_env ?o demo_doc"
  let ?r2 = "run demo_env ?o (fst (snd ?r1))"
  have h1: "?r1 = (fst ?r1, fst (snd ?r1), snd (snd ?r1))" by simp
  have h2: "?r2 = (fst ?r2, fst (snd ?r2), snd (snd ?r2))" by simp
  have t1: "snd (snd ?r1) =
     [Log Info (Text ''Rendering diagram: d''), SetProcessed 0, EngineRender ''mermaid-0'' ''graph'' 0,
      SetInnerHTML 0 ''svg'',
      Log Info (Text ''Rendering diagram: d''), SetProcessed 1, EngineRender ''mermaid-1'' ''graph'' 1,
      Log Warn (Thrown (Detailed ''bad syntax'' ''X1'' None None)),
      Log Info (Text ''Rendering diagram: d''),
      Log Error (Text ''bad syntax''),
      Log Error (Text ''Use the suppressErrors option to suppress these errors'')]"
    by (simp add: demo_simps)
  have t2: "snd (snd ?r2) =
     [Log Info (Text ''Rendering diagram: d''), Log Info (Text ''Rendering diagram: d''),
      Log Info (Text ''Rendering diagram: d'')]"
    by (simp add: demo_simps)
  have "distinct (render_targets (snd (snd ?r1) @ snd (snd ?r2)))"
    using run_twice_processes_once[OF h1 h2] by (elim conjE)
  then show ?thesis using t1 t2 by blast
qed

text \<open>
  C10.  After a call of \<^verbatim>\<open>run\<close>: an element whose engine call failed differs from what it was
  before the call by its attribute \<^verbatim>\<open>data-processed\<close> only, so its content is unchanged; an
  element whose engine call succeeded has the marker and the produced svg as content; an element
  for which the engine was not called is unchanged.  So the content of an element is replaced
  only when its render succeeds.  (The writes are those of \<^verbatim>\<open>run\<close> itself: the engine is taken
  not to write the document.)
\<close>

theorem failed_render_keeps_content:
  assumes r: "run E options d = (r, d', t)"
  shows "(\<forall>i x el e. EngineRender i x el \<in> set t \<longrightarrow> mermaidAPI_render E i x el = Inl e \<longrightarrow>
            d' el = (d el)\<lparr>data_processed := Some ''true''\<rparr>)
       \<and> (\<forall>i x el res. EngineRender i x el \<in> set t \<longrightarrow> mermaidAPI_render E i x el = Inr res \<longrightarrow>
            d' el = (d el)\<lparr>data_processed := Some ''true'', innerHTML := svg res\<rparr>)
       \<and> (\<forall>el. (\<forall>i x. EngineRender i x el \<notin> set t) \<longrightarrow> d' el = d el)"
proof -
  let ?o = "given_options options"
  from run_scan[OF r] show ?thesis
  proof
    assume a: "d' = d \<and> render_targets t = [] \<and> (\<forall>a. SetProcessed a \<notin> set t)
          \<and> (\<exists>e. nodesToProcess E ?o = Inl e)"
    then show ?thesis using no_targets_no_render by auto
  next
    assume "\<exists>ns s tl. nodesToProcess E ?o = Inr ns
            \<and> s = process_nodes E (postRenderCallback ?o) ns (start_scan d)
            \<and> d' = doc s \<and> t = trace s @ tl \<and> render_targets tl = [] \<and> (\<forall>a. SetProcessed a \<notin> set tl)"
    then obtain ns s tl where a: "nodesToProcess E ?o = Inr ns"
       "s = process_nodes E (postRenderCallback ?o) ns (start_scan d)"
       "d' = doc s" "t = trace s @ tl" "render_targets tl = []" by blast
    have inv: "scan_inv E d s" unfolding a(2) by (intro scan_inv_loop scan_inv_start)
    have mem: "EngineRender i x el \<in> set t \<longleftrightarrow> EngineRender i x el \<in> set (trace s)" for i x el
      using a(4) no_targets_no_render[OF a(5)] by auto
    have c1: "\<forall>i x el e. EngineRender i x el \<in> set t \<longrightarrow> mermaidAPI_render E i x el = Inl e \<longrightarrow>
            d' el = (d el)\<lparr>data_processed := Some ''true''\<rparr>"
      using inv unfolding mem a(3) scan_inv_def by blast
    have c2: "\<forall>i x el res. EngineRender i x el \<in> set t \<longrightarrow> mermaidAPI_render E i x el = Inr res \<longrightarrow>
            d' el = (d el)\<lparr>data_processed := Some ''true'', innerHTML := svg res\<rparr>"
      using inv unfolding mem a(3) scan_inv_def by blast
    have tg: "\<exists>i x. EngineRender i x el \<in> set u" if "el \<in> set (render_targets u)" for el u
      using that by (induction u) (auto simp: render_targets_def split: event.splits)
    have c3: "\<forall>el. (\<forall>i x. EngineRender i x el \<notin> set t) \<longrightarrow> d' el = d el"
    proof (intro allI impI)
      fix el assume n: "\<forall>i x. EngineRender i x el \<notin> set t"
      then have "el \<notin> set (render_targets (trace s))" using tg[of el "trace s"] mem by blast
      then show "d' el = d el" using inv a(3) by (simp add: scan_inv_def)
    qed
    show ?thesis using c1 c2 c3 by blast
  qed
qed

theorem failed_render_keeps_content_witness:
  "EngineRender ''mermaid-1'' ''graph'' 1 \<in> set (snd (snd (run demo_env (Some (demo_nodes [0, 1])) demo_doc)))
   \<and> mermaidAPI_render demo_env ''mermaid-1'' ''graph'' 1 = Inl (Detailed ''bad syntax'' ''X1'' None None)
   \<and> fst (snd (run demo_env (Some (demo_nodes [0, 1])) demo_doc)) 1 =
       \<lparr>el_id = ''d'', data_processed = Some ''true'', innerHTML = ''graph''\<rparr>"
proof -
  let ?r = "run demo_env (Some (demo_nodes [0, 1])) demo_doc"
  have h: "?r = (fst ?r, fst (snd ?r), snd (snd ?r))" by simp
  have t: "EngineRender ''mermaid-1'' ''graph'' 1 \<in> set (snd (snd ?r))" by (simp add: demo_simps)
  have f: "mermaidAPI_render demo_env ''mermaid-1'' ''graph'' 1 = Inl (Detailed ''bad syntax'' ''X1'' None None)"
    by (simp add: demo_env_def)
  have "\<forall>i x el e. EngineRender i x el \<in> set (snd (snd ?r)) \<longrightarrow> mermaidAPI_render demo_env i x el = Inl e \<longrightarrow>
            fst (snd ?r) el = (demo_doc el)\<lparr>data_processed := Some ''true''\<rparr>"
    using failed_render_keeps_content[OF h] by (elim conjE)
  then have "fst (snd ?r) 1 = (demo_doc 1)\<lparr>data_processed := Some ''true''\<rparr>" using t f by blast
  then have "fst (snd ?r) 1 = \<lparr>el_id = ''d'', data_processed = Some ''true'', innerHTML = ''graph''\<rparr>"
    by (simp add: demo_doc_def)
  then show ?thesis using t f by blast
qed

text \<open>
  C4.  When the node list is resolved, \<^verbatim>\<open>runThrowsErrors\<close> throws the first element of the
  collected errors when there is one, whatever was collected after it, and returns normally when
  nothing was collected; \<^verbatim>\<open>run\<close> raises that same first error unless suppression is requested.
  The collection only grows at its end while the node list is processed, so its first element is
  the error that was collected first.
\<close>

theorem first_collected_error_is_raised:
  assumes "nodesToProcess E opts = Inr ns"
  shows "fst (runThrowsErrors E opts d) =
           (case errors (process_nodes E (postRenderCallback opts) ns (start_scan d)) of
              [] \<Rightarrow> Inr () | e # rest \<Rightarrow> Inl e)
       \<and> fst (run E (Some opts) d) =
           (case errors (process_nodes E (postRenderCallback opts) ns (start_scan d)) of
              [] \<Rightarrow> Inr ()
            | e # rest \<Rightarrow> if truthy_bool (suppressErrors opts) then Inr () else Inl e)
       \<and> (\<forall>ns1 ns2. ns = ns1 @ ns2 \<longrightarrow>
             (\<exists>more. errors (process_nodes E (postRenderCallback opts) ns (start_scan d)) =
                      errors (process_nodes E (postRenderCallback opts) ns1 (start_scan d)) @ more))"
proof -
  have a: "fst (runThrowsErrors E opts d) =
           (case errors (process_nodes E (postRenderCallback opts) ns (start_scan d)) of
              [] \<Rightarrow> Inr () | e # rest \<Rightarrow> Inl e)"
    using assms by (simp add: runThrowsErrors_def Let_def)
  have b: "fst (run E (Some opts) d) =
           (case errors (process_nodes E (postRenderCallback opts) ns (start_scan d)) of
              [] \<Rightarrow> Inr ()
            | e # rest \<Rightarrow> if truthy_bool (suppressErrors opts) then Inr () else Inl e)"
    using assms by (simp add: run_def runThrowsErrors_def Let_def run_catch_def split: list.splits)
  have c: "\<forall>ns1 ns2. ns = ns1 @ ns2 \<longrightarrow>
             (\<exists>more. errors (process_nodes E (postRenderCallback opts) ns (start_scan d)) =
                      errors (process_nodes E (postRenderCallback opts) ns1 (start_scan d)) @ more)"
    using process_nodes_errors_extend by (auto simp: process_nodes_append)
  show ?thesis using a b c by blast
qed

theorem first_collected_error_is_raised_witness:
  "nodesToProcess demo_env (demo_nodes [1, 2, 0]) = Inr [1, 2, 0]
   \<and> errors (process_nodes demo_env None [1, 2, 0] (start_scan demo_doc)) =
       [Detailed ''bad syntax'' ''X1'' (Some ''bad syntax'') (Some (Detailed ''bad syntax'' ''X1'' None None)),
        Detailed ''boom'' ''TypeError'' (Some ''boom'') (Some (ErrorObject ''TypeError'' ''boom''))]
   \<and> fst (run demo_env (Some (demo_nodes [1, 2, 0])) demo_doc) =
       Inl (Detailed ''bad syntax'' ''X1'' (Some ''bad syntax'') (Some (Detailed ''bad syntax'' ''X1'' None None)))"
proof -
  have h: "nodesToProcess demo_env (demo_nodes [1, 2, 0]) = Inr [1, 2, 0]"
    by (simp add: nodesToProcess_def demo_nodes_def)
  have e: "errors (process_nodes demo_env (postRenderCallback (demo_nodes [1, 2, 0])) [1, 2, 0] (start_scan demo_doc)) =
       [Detailed ''bad syntax'' ''X1'' (Some ''bad syntax'') (Some (Detailed ''bad syntax'' ''X1'' None None)),
        Detailed ''boom'' ''TypeError'' (Some ''boom'') (Some (ErrorObject ''TypeError'' ''boom''))]"
    by (simp add: demo_simps)
  have s: "truthy_bool (suppressErrors (demo_nodes [1, 2, 0])) = False"
    by (simp add: demo_nodes_def truthy_bool_def)
  have p: "postRenderCallback (demo_nodes [1, 2, 0]) = None" by (simp add: demo_nodes_def)
  have "fst (run demo_env (Some (demo_nodes [1, 2, 0])) demo_doc) =
           (case errors (process_nodes demo_env (postRenderCallback (demo_nodes [1, 2, 0])) [1, 2, 0]
                          (start_scan demo_doc)) of
              [] \<Rightarrow> Inr ()
            | e # rest \<Rightarrow> if truthy_bool (suppressErrors (demo_nodes [1, 2, 0])) then Inr () else Inl e)"
    using first_collected_error_is_raised[OF h, of demo_doc] by (elim conjE)
  then show ?thesis using h e s p by simp
qed

text \<open>
  C6.  For a failure that is neither an object with \<^verbatim>\<open>str\<close> nor an \<^verbatim>\<open>Error\<close>, \<^verbatim>\<open>handleError\<close>
  logs it, calls the hook (when present) with it and leaves the collected errors as they were.
  Whatever \<^verbatim>\<open>run\<close> raises is the error of line 122 or a Detailed Error built from a failure of
  a recognised shape; so \<^verbatim>\<open>run\<close> raises neither such a failure nor a Detailed Error built from
  it.
\<close>

theorem unrecognised_failure_not_raised:
  "handleError (Opaque v) errs hook =
     (errs, Log Warn (Thrown (Opaque v)) # (if hook then [ParseError1 (Opaque v)] else []))
   \<and> (\<forall>e. fst (run E options d) = Inl e \<longrightarrow> e = source_error \<or> normalised e)
   \<and> fst (run E options d) \<noteq> Inl (Opaque v)
   \<and> (\<forall>s h m. fst (run E options d) \<noteq> Inl (Detailed s h m (Some (Opaque v))))"
proof -
  have a: "handleError (Opaque v) errs hook =
     (errs, Log Warn (Thrown (Opaque v)) # (if hook then [ParseError1 (Opaque v)] else []))"
    by (simp add: handleError_def isDetailedError_def instanceofError_def)
  have b: "\<forall>e. fst (run E options d) = Inl e \<longrightarrow> e = source_error \<or> normalised e"
    using run_raises runThrowsErrors_raises by blast
  have c: "fst (run E options d) \<noteq> Inl (Opaque v)"
    using b by (auto simp: source_error_def normalised_def)
  have d: "\<forall>s h m. fst (run E options d) \<noteq> Inl (Detailed s h m (Some (Opaque v)))"
    using b by (auto simp: source_error_def normalised_def isDetailedError_def instanceofError_def)
  show ?thesis using a b c d by blast
qed

theorem unrecognised_failure_not_raised_witness:
  "mermaidAPI_render demo_env ''mermaid-0'' ''graph'' 3 = Inl (Opaque ''plain'')
   \<and> run demo_env (Some (demo_nodes [3])) demo_doc =
       (Inr (), demo_doc(3 := \<lparr>el_id = ''d'', data_processed = Some ''true'', innerHTML = ''graph''\<rparr>),
        [Log Info (Text ''Rendering diagram: d''), SetProcessed 3, EngineRender ''mermaid-0'' ''graph'' 3,
         Log Warn (Thrown (Opaque ''plain''))])
   \<and> fst (run demo_env (Some (demo_nodes [3])) demo_doc) \<noteq> Inl (Opaque ''plain'')"
proof -
  have f: "mermaidAPI_render demo_env ''mermaid-0'' ''graph'' 3 = Inl (Opaque ''plain'')"
    by (simp add: demo_env_def)
  have r: "run demo_env (Some (demo_nodes [3])) demo_doc =
       (Inr (), demo_doc(3 := \<lparr>el_id = ''d'', data_processed = Some ''true'', innerHTML = ''graph''\<rparr>),
        [Log Info (Text ''Rendering diagram: d''), SetProcessed 3, EngineRender ''mermaid-0'' ''graph'' 3,
         Log Warn (Thrown (Opaque ''plain''))])"
    by (simp add: demo_simps)
  have "fst (run demo_env (Some (demo_nodes [3])) demo_doc) \<noteq> Inl (Opaque ''plain'')"
    using unrecognised_failure_not_raised[of "''plain''" "[]" False demo_env "Some (demo_nodes [3])" demo_doc]
    by (elim conjE)
  then show ?thesis using f r by blast
qed

text \<open>
  C3, as the specification states it, fails: a failure of the per-element callback does not
  abort the scan and is normalised into the collected errors.  On the page below the callback
  fails for element 0; the engine is still called for element 4, and what \<^verbatim>\<open>run\<close> raises at the
  end is the Detailed Error built from the callback's failure.
\<close>

theorem callback_failure_counterexample:
  "fst (run demo_env (Some ((demo_nodes [0, 4])\<lparr>postRenderCallback := Some failing_callback\<rparr>)) demo_doc) =
     Inl (Detailed ''cb'' ''Error'' (Some ''cb'') (Some (ErrorObject ''Error'' ''cb'')))
   \<and> snd (snd (run demo_env (Some ((demo_nodes [0, 4])\<lparr>postRenderCallback := Some failing_callback\<rparr>)) demo_doc)) =
     [Log Info (Text ''Rendering diagram: d''), SetProcessed 0, EngineRender ''mermaid-0'' ''graph'' 0,
      SetInnerHTML 0 ''svg'', PostRenderCallback ''mermaid-0'', Log Warn (Thrown (ErrorObject ''Error'' ''cb'')),
      Log Info (Text ''Rendering diagram: d''), SetProcessed 4, EngineRender ''mermaid-1'' ''graph'' 4,
      SetInnerHTML 4 ''svg'', PostRenderCallback ''mermaid-1'', Log Warn (Thrown (ErrorObject ''Error'' ''cb'')),
      Log Error (Text ''cb''),
      Log Error (Text ''Use the suppressErrors option to suppress these errors'')]"
  by (simp add: demo_simps failing_callback_def)

text \<open>
  C3, amended.  When the engine call for an unmarked element succeeds and then the per-element
  callback fails, or the callback is absent or succeeds and the binding function fails, the
  failure is caught by the handler of the loop body: the collected errors become what
  \<^verbatim>\<open>handleError\<close> makes of them for this failure, and the scan goes on, so that by the end of
  the pass every element of the node list carries the marker and the engine has been called for
  every element of the list that was unmarked.
\<close>

theorem callback_failure_is_collected:
  assumes np: "\<not> truthy_string (data_processed (doc s el))"
    and rd: "mermaidAPI_render E (''mermaid-'' @ idGenerator_next E (ids s)) (to_text E (innerHTML (doc s el))) el
               = Inr res"
    and fail: "(\<exists>f. cb = Some f \<and> f (''mermaid-'' @ idGenerator_next E (ids s)) = Some e)
             \<or> ((cb = None \<or> (\<exists>f. cb = Some f \<and> f (''mermaid-'' @ idGenerator_next E (ids s)) = None))
                 \<and> (\<exists>b. bindFunctions res = Some b \<and> b el = Some e))"
  shows "errors (render_element E cb el s) = fst (handleError e (errors s) (parseError E))
       \<and> (\<forall>a \<in> set rest. truthy_string (data_processed (doc (process_nodes E cb (el # rest) s) a)))
       \<and> (\<forall>a \<in> set rest. \<not> truthy_string (data_processed (doc s a)) \<longrightarrow>
              a \<in> set (render_targets (trace (process_nodes E cb (el # rest) s))))"
proof -
  have "errors (render_element E cb el s) = fst (handleError e (errors s) (parseError E))"
    using fail
  proof
    assume "\<exists>f. cb = Some f \<and> f (''mermaid-'' @ idGenerator_next E (ids s)) = Some e"
    then show ?thesis using render_element_errors_callback[OF np rd] by blast
  next
    assume "(cb = None \<or> (\<exists>f. cb = Some f \<and> f (''mermaid-'' @ idGenerator_next E (ids s)) = None))
                 \<and> (\<exists>b. bindFunctions res = Some b \<and> b el = Some e)"
    then show ?thesis using render_element_errors_bind[OF np rd] by blast
  qed
  moreover have "\<forall>a \<in> set rest. truthy_string (data_processed (doc (process_nodes E cb (el # rest) s) a))"
    using process_nodes_marks_all[of _ "el # rest"] by simp
  moreover have "\<forall>a \<in> set rest. \<not> truthy_string (data_processed (doc s a)) \<longrightarrow>
              a \<in> set (render_targets (trace (process_nodes E cb (el # rest) s)))"
    using process_nodes_renders_unmarked[of _ "el # rest" s E cb] by simp
  ultimately show ?thesis by blast
qed

theorem callback_failure_is_collected_witness:
  "\<not> truthy_string (data_processed (doc (start_scan demo_doc) 0))
   \<and> mermaidAPI_render demo_env ''mermaid-0'' ''graph'' 0 = Inr \<lparr>svg = ''svg'', bindFunctions = None\<rparr>
   \<and> failing_callback ''mermaid-0'' = Some (ErrorObject ''Error'' ''cb'')
   \<and> errors (render_element demo_env (Some failing_callback) 0 (start_scan demo_doc)) =
       [Detailed ''cb'' ''Error'' (Some ''cb'') (Some (ErrorObject ''Error'' ''cb''))]
   \<and> truthy_string (data_processed (doc (process_nodes demo_env (Some failing_callback) [0, 4] (start_scan demo_doc)) 4))
   \<and> 4 \<in> set (render_targets (trace (process_nodes demo_env (Some failing_callback) [0, 4] (start_scan demo_doc))))"
proof -
  let ?s = "start_scan demo_doc"
  have np: "\<not> truthy_string (data_processed (doc ?s 0))"
    by (simp add: start_scan_def demo_doc_def truthy_string_def)
  have rd: "mermaidAPI_render demo_env (''mermaid-'' @ idGenerator_next demo_env (ids ?s))
              (to_text demo_env (innerHTML (doc ?s 0))) 0 = Inr \<lparr>svg = ''svg'', bindFunctions = None\<rparr>"
    by (simp add: start_scan_def demo_doc_def demo_env_def)
  have rd': "mermaidAPI_render demo_env ''mermaid-0'' ''graph'' 0 = Inr \<lparr>svg = ''svg'', bindFunctions = None\<rparr>"
    by (simp add: demo_env_def)
  have cb: "failing_callback ''mermaid-0'' = Some (ErrorObject ''Error'' ''cb'')"
    by (simp add: failing_callback_def)
  have fail: "(\<exists>f. Some failing_callback = Some f
                 \<and> f (''mermaid-'' @ idGenerator_next demo_env (ids ?s)) = Some (ErrorObject ''Error'' ''cb''))
             \<or> ((Some failing_callback = None
                  \<or> (\<exists>f. Some failing_callback = Some f \<and> f (''mermaid-'' @ idGenerator_next demo_env (ids ?s)) = None))
                 \<and> (\<exists>b. bindFunctions \<lparr>svg = ''svg'', bindFunctions = None\<rparr> = Some b
                       \<and> b 0 = Some (ErrorObject ''Error'' ''cb'')))"
    by (simp add: failing_callback_def)
  note t = callback_failure_is_collected[OF np rd fail, of "[4]"]
  have e: "errors (render_element demo_env (Some failing_callback) 0 ?s) =
       [Detailed ''cb'' ''Error'' (Some ''cb'') (Some (ErrorObject ''Error'' ''cb''))]"
    using t by (simp add: handleError_def isDetailedError_def instanceofError_def start_scan_def)
  have m: "truthy_string (data_processed (doc (process_nodes demo_env (Some failing_callback) [0, 4] ?s) 4))"
    using t by simp
  have u: "\<not> truthy_string (data_processed (doc ?s 4))"
    by (simp add: start_scan_def demo_doc_def truthy_string_def)
  have g: "4 \<in> set (render_targets (trace (process_nodes demo_env (Some failing_callback) [0, 4] ?s)))"
    using t u by simp
  show ?thesis using np rd' cb e m g by blast
qed

text \<open>
  C8, as the specification states it, fails: with suppression requested, \<^verbatim>\<open>run\<close> returns
  without raising, and no line that reminds of the suppression is logged.  The line \<open>Use the
  suppressErrors option to suppress these errors\<close> is logged on the other path, before the
  failure is raised again.  On the page below the render of element 1 fails and suppression is
  requested.
\<close>

theorem suppressed_run_counterexample:
  "fst (run demo_env (Some ((demo_nodes [1])\<lparr>suppressErrors := Some True\<rparr>)) demo_doc) = Inr ()
   \<and> snd (snd (run demo_env (Some ((demo_nodes [1])\<lparr>suppressErrors := Some True\<rparr>)) demo_doc)) =
     [Log Info (Text ''Rendering diagram: d''), SetProcessed 1, EngineRender ''mermaid-0'' ''graph'' 1,
      Log Warn (Thrown (Detailed ''bad syntax'' ''X1'' None None)),
      Log Error (Text ''bad syntax'')]
   \<and> Log Error (Text ''Use the suppressErrors option to suppress these errors'')
       \<notin> set (snd (snd (run demo_env (Some ((demo_nodes [1])\<lparr>suppressErrors := Some True\<rparr>)) demo_doc)))"
  by (simp add: demo_simps)

text \<open>
  C8, amended.  When \<^verbatim>\<open>runThrowsErrors\<close> throws \<open>e\<close>, the wrapper \<^verbatim>\<open>run\<close> first logs \<^verbatim>\<open>e.str\<close> as an
  error when \<open>e\<close> is a Detailed Error (and logs nothing of \<open>e\<close> otherwise), then calls the
  global hook with \<open>e\<close> when it is set.  After that, when suppression is not requested, it logs
  the line \<open>Use the suppressErrors option to suppress these errors\<close> and raises \<open>e\<close> again; when
  suppression is requested it returns normally and logs no further line.
\<close>

theorem run_wrapper:
  assumes "runThrowsErrors E opts d = (Inl e, d', t)"
  shows "run E (Some opts) d =
           (if truthy_bool (suppressErrors opts) then Inr () else Inl e, d',
            t @ (if isDetailedError e then [Log Error (Text (str e))] else [])
              @ (if parseError E then [ParseError1 e] else [])
              @ (if truthy_bool (suppressErrors opts) then []
                 else [Log Error (Text ''Use the suppressErrors option to suppress these errors'')]))"
  using assms by (simp add: run_def run_catch_def Let_def)

theorem run_wrapper_witness:
  "fst (runThrowsErrors (demo_env\<lparr>parseError := True\<rparr>) (demo_nodes [1]) demo_doc) =
     Inl (Detailed ''bad syntax'' ''X1'' (Some ''bad syntax'') (Some (Detailed ''bad syntax'' ''X1'' None None)))
   \<and> fst (run (demo_env\<lparr>parseError := True\<rparr>) (Some (demo_nodes [1])) demo_doc) =
     Inl (Detailed ''bad syntax'' ''X1'' (Some ''bad syntax'') (Some (Detailed ''bad syntax'' ''X1'' None None)))
   \<and> snd (snd (run (demo_env\<lparr>parseError := True\<rparr>) (Some (demo_nodes [1])) demo_doc)) =
     [Log Info (Text ''Rendering diagram: d''), SetProcessed 1, EngineRender ''mermaid-0'' ''graph'' 1,
      Log Warn (Thrown (Detailed ''bad syntax'' ''X1'' None None)), ParseError2 ''bad syntax'' ''X1'',
      Log Error (Text ''bad syntax''),
      ParseError1 (Detailed ''bad syntax'' ''X1'' (Some ''bad syntax'') (Some (Detailed ''bad syntax'' ''X1'' None None))),
      Log Error (Text ''Use the suppressErrors option to suppress these errors'')]"
proof -
  let ?E = "demo_env\<lparr>parseError := True\<rparr>"
  let ?e = "Detailed ''bad syntax'' ''X1'' (Some ''bad syntax'') (Some (Detailed ''bad syntax'' ''X1'' None None))"
  let ?q = "runThrowsErrors ?E (demo_nodes [1]) demo_doc"
  have f: "fst ?q = Inl ?e" by (simp add: demo_simps)
  have t: "snd (snd ?q) =
     [Log Info (Text ''Rendering diagram: d''), SetProcessed 1, EngineRender ''mermaid-0'' ''graph'' 1,
      Log Warn (Thrown (Detailed ''bad syntax'' ''X1'' None None)), ParseError2 ''bad syntax'' ''X1'']"
    by (simp add: demo_simps)
  have h: "?q = (Inl ?e, fst (snd ?q), snd (snd ?q))" using f by (simp add: prod_eq_iff)
  have s: "truthy_bool (suppressErrors (demo_nodes [1])) = False"
    by (simp add: demo_nodes_def truthy_bool_def)
  have w: "run ?E (Some (demo_nodes [1])) demo_doc =
     (Inl ?e, fst (snd ?q),
      snd (snd ?q) @ [Log Error (Text ''bad syntax'')] @ [ParseError1 ?e]
        @ [Log Error (Text ''Use the suppressErrors option to suppress these errors'')])"
    using run_wrapper[OF h] s by (simp add: isDetailedError_def)
  show ?thesis using f w t by simp
qed

text \<open>
  C9.  The claim holds for an explicit node list, for a given non-empty selector and for a call
  without any options (the default options carry the selector \<open>.mermaid\<close>).  It fails for an
  options object that has neither \<^verbatim>\<open>nodes\<close> nor \<^verbatim>\<open>querySelector\<close>, for instance one that holds
  only a callback: the default of the parameter is the whole object, so no selector is filled
  in, and \<^verbatim>\<open>run\<close> raises the error of line 122 instead of querying \<open>.mermaid\<close>.
\<close>

theorem options_without_selector_fail:
  "run E (Some \<lparr>querySelector = None, nodes = None, postRenderCallback = cb, suppressErrors = None\<rparr>) d =
     (Inl (ErrorObject ''Error'' ''Nodes and querySelector are both undefined''), d,
      (if parseError E then [ParseError1 (ErrorObject ''Error'' ''Nodes and querySelector are both undefined'')] else [])
      @ [Log Error (Text ''Use the suppressErrors option to suppress these errors'')])
   \<and> nodesToProcess E default_options = Inr (querySelectorAll E ''.mermaid'')
   \<and> nodesToProcess E \<lparr>querySelector = q, nodes = Some ns, postRenderCallback = cb, suppressErrors = flag\<rparr> = Inr ns
   \<and> nodesToProcess E \<lparr>querySelector = Some (c # cs), nodes = None, postRenderCallback = cb, suppressErrors = flag\<rparr>
       = Inr (querySelectorAll E (c # cs))"
  by (simp add: run_def runThrowsErrors_def nodesToProcess_def run_catch_def Let_def
      isDetailedError_def truthy_bool_def truthy_string_def default_options_def)

section \<open>Lemmas about the execution queue\<close>

lemma calls_simps [simp]:
  "calls [] = []"
  "calls (es @ fs) = calls es @ calls fs"
  "calls (Call n c # es) = (n, c) # calls es"
  "calls (Res n r # es) = calls es"
  "calls (Resolve n r # es) = calls es"
  "calls (LogError m e # es) = calls es"
  "calls (Hook e # es) = calls es"
  "calls (Rej n e # es) = calls es"
  "calls (Reject n e # es) = calls es"
  by (simp_all add: calls_def)

lemma queue_inv_initial: "queue_inv (initial h)"
  by (simp add: queue_inv_def initial_def)

lemma ticket_fresh:
  assumes "map fst (cs @ (n, c) # rest) = [0..<k]"
  shows "n \<notin> fst ` set cs"
proof -
  have "distinct (map fst (cs @ (n, c) # rest))" using assms by simp
  then show ?thesis by auto
qed

lemma queue_inv_loop:
  assumes m: "map fst (calls (effects s) @ executionQueue s) = [0..<submitted s]"
    and st: "\<forall>n. settled s n \<noteq> None \<longrightarrow> n \<in> fst ` set (calls (effects s))"
    and ip: "in_progress s = []"
    and rn: "executionQueueRunning s"
  shows "queue_inv (loop s)"
proof (cases "executionQueue s")
  case Nil
  then show ?thesis using assms by (simp add: loop_def queue_inv_def)
next
  case (Cons f rest)
  obtain n c where f: "f = (n, c)" by (cases f)
  have "n \<notin> fst ` set (calls (effects s))" using m Cons f ticket_fresh by metis
  then have "settled s n = None" using st by blast
  then show ?thesis using assms Cons f by (auto simp: loop_def queue_inv_def)
qed

lemma queue_inv_submit: "queue_inv s \<Longrightarrow> queue_inv (submit c s)"
proof (cases "executionQueueRunning s")
  case True
  assume "queue_inv s"
  then show ?thesis using True by (simp add: submit_def executeQueue_def queue_inv_def)
next
  case False
  assume inv: "queue_inv s"
  let ?s = "s\<lparr>executionQueue := executionQueue s @ [(submitted s, c)], submitted := Suc (submitted s),
               executionQueueRunning := True\<rparr>"
  have "queue_inv (loop ?s)"
    using inv False by (intro queue_inv_loop) (auto simp: queue_inv_def)
  then show ?thesis using False by (simp add: submit_def executeQueue_def)
qed

lemma queue_inv_settle: "queue_inv s \<Longrightarrow> queue_inv (settle n outcome s)"
  by (cases outcome) (force simp: settle_def queue_inv_def)+

lemma queue_inv_resume: "queue_inv s \<Longrightarrow> queue_inv (resume s)"
proof -
  assume inv: "queue_inv s"
  show ?thesis
  proof (cases "awaited s")
    case None then show ?thesis using inv by (simp add: resume_def)
  next
    case (Some n)
    then have run: "executionQueueRunning s" using inv by (auto simp: queue_inv_def)
    show ?thesis
    proof (cases "settled s n")
      case None then show ?thesis using inv Some by (simp add: resume_def)
    next
      case (Some out)
      have ip: "in_progress s = []" using inv run \<open>awaited s = Some n\<close> Some by (auto simp: queue_inv_def)
      show ?thesis
      proof (cases out)
        case (Inl e)
        have "queue_inv (loop (s\<lparr>effects := effects s @ [LogError ''Error executing queue'' e]\<rparr>))"
          using inv ip run by (intro queue_inv_loop) (auto simp: queue_inv_def)
        then show ?thesis using \<open>awaited s = Some n\<close> Some Inl by (simp add: resume_def)
      next
        case (Inr r)
        have "queue_inv (loop s)" using inv ip run by (intro queue_inv_loop) (auto simp: queue_inv_def)
        then show ?thesis using \<open>awaited s = Some n\<close> Some Inr by (simp add: resume_def)
      qed
    qed
  qed
qed

lemma queue_inv_step: "queue_inv s \<Longrightarrow> queue_inv (step s i)"
  by (cases i) (simp_all add: queue_inv_submit queue_inv_settle queue_inv_resume, simp add: queue_inv_def)

lemma exec_snoc: "exec (ins @ [i]) s = step (exec ins s) i"
  by (simp add: exec_def)

lemma queue_inv_exec: "queue_inv s \<Longrightarrow> queue_inv (exec ins s)"
  by (induction ins rule: rev_induct) (simp_all add: exec_def queue_inv_step)

lemma loop_keeps_units [simp]:
  "calls (effects (loop s)) @ executionQueue (loop s) = calls (effects s) @ executionQueue s"
  by (cases "executionQueue s") (simp_all add: loop_def)

lemma loop_submitted [simp]: "submitted (loop s) = submitted s"
  by (cases "executionQueue s") (simp_all add: loop_def)

lemma submit_units:
  "calls (effects (submit c s)) @ executionQueue (submit c s) =
     calls (effects s) @ executionQueue s @ [(submitted s, c)]
   \<and> submitted (submit c s) = Suc (submitted s)"
  by (simp add: submit_def executeQueue_def)

lemma settle_units:
  "calls (effects (settle n outcome s)) @ executionQueue (settle n outcome s) =
     calls (effects s) @ executionQueue s
   \<and> submitted (settle n outcome s) = submitted s"
  by (cases outcome) (simp_all add: settle_def)

lemma resume_units:
  "calls (effects (resume s)) @ executionQueue (resume s) = calls (effects s) @ executionQueue s
   \<and> submitted (resume s) = submitted s"
  by (simp add: resume_def split: option.splits sum.splits)

lemma submissions_simps [simp]:
  "submissions [] = []"
  "submissions (ins @ js) = submissions ins @ submissions js"
  "submissions [Submit c] = [c]"
  "submissions [Settle n outcome] = []"
  "submissions [Resume] = []"
  "submissions [SetParseErrorHandler] = []"
  by (simp_all add: submissions_def)

lemma fifo_exec:
  "calls (effects (exec ins (initial h))) @ executionQueue (exec ins (initial h)) =
     zip [0..<length (submissions ins)] (submissions ins)
   \<and> submitted (exec ins (initial h)) = length (submissions ins)"
proof (induction ins rule: rev_induct)
  case Nil
  then show ?case by (simp add: exec_def initial_def)
next
  case (snoc i ins)
  let ?s = "exec ins (initial h)"
  show ?case
  proof (cases i)
    case (Submit c)
    then show ?thesis using snoc submit_units[of c ?s] by (simp add: exec_snoc)
  next
    case (Settle n outcome)
    then show ?thesis using snoc settle_units[of n outcome ?s] by (simp add: exec_snoc)
  next
    case Resume
    then show ?thesis using snoc resume_units[of ?s] by (simp add: exec_snoc)
  next
    case SetParseErrorHandler
    then show ?thesis using snoc by (simp add: exec_snoc)
  qed
qed

lemma single_flight: "queue_inv s \<Longrightarrow> length (in_progress s) \<le> 1"
  by (cases "executionQueueRunning s") (auto simp: queue_inv_def)

lemma submit_while_running:
  "executionQueueRunning s \<Longrightarrow>
   submit c s = s\<lparr>executionQueue := executionQueue s @ [(submitted s, c)], submitted := Suc (submitted s)\<rparr>"
  by (simp add: submit_def executeQueue_def)

lemma submit_while_idle:
  "queue_inv s \<Longrightarrow> \<not> executionQueueRunning s \<Longrightarrow>
   submit c s = s\<lparr>executionQueue := [], submitted := Suc (submitted s), executionQueueRunning := True,
                   awaited := Some (submitted s), in_progress := [submitted s],
                   effects := effects s @ [Call (submitted s) c]\<rparr>"
  by (simp add: submit_def executeQueue_def loop_def queue_inv_def)

lemma flag_cleared_iff:
  assumes inv: "queue_inv s"
  shows "(executionQueueRunning s \<and> \<not> executionQueueRunning (step s i)) \<longleftrightarrow>
         (i = Resume \<and> (\<exists>n out. awaited s = Some n \<and> settled s n = Some out) \<and> executionQueue s = [])"
proof (cases i)
  case (Submit c)
  then show ?thesis by (auto simp: submit_def executeQueue_def loop_def split: list.splits)
next
  case (Settle n outcome)
  then show ?thesis by (cases outcome) (auto simp: settle_def)
next
  case Resume
  show ?thesis
  proof (cases "executionQueueRunning s")
    case False
    then show ?thesis using inv by (simp add: queue_inv_def)
  next
    case True
    then obtain n where n: "awaited s = Some n" using inv by (auto simp: queue_inv_def)
    show ?thesis using Resume True n
      by (auto simp: resume_def loop_def split: option.splits sum.splits list.splits)
  qed
next
  case SetParseErrorHandler
  then show ?thesis by simp
qed

lemma settle_failure:
  "n \<in> set (in_progress s) \<Longrightarrow>
   effects (settle n (Inl e) s) =
     effects s @ [LogError ''Error parsing'' e] @ (if parseErrorHandler s then [Hook e] else []) @ [Rej n e, Reject n e]
   \<and> delivered (settle n (Inl e) s) n = Some (Inl e)
   \<and> settled (settle n (Inl e) s) n = Some (Inl e)
   \<and> in_progress (settle n (Inl e) s) = removeAll n (in_progress s)"
  by (simp add: settle_def)

lemma resume_after_settle:
  assumes inv: "queue_inv s" and ip: "n \<in> set (in_progress s)"
  shows "resume (settle n outcome s) =
           loop ((settle n outcome s)\<lparr>effects := effects (settle n outcome s) @
                   (case outcome of Inl e \<Rightarrow> [LogError ''Error executing queue'' e] | Inr r \<Rightarrow> [])\<rparr>)"
proof -
  have run: "executionQueueRunning s" using inv ip by (auto simp: queue_inv_def)
  then have aw: "awaited s = Some n" using inv ip by (auto simp: queue_inv_def)
  show ?thesis using ip aw by (cases outcome) (simp_all add: resume_def settle_def)
qed

lemma control_loop_effects: "control (loop (s\<lparr>effects := es\<rparr>)) = control (loop s)"
  by (cases "executionQueue s") (simp_all add: loop_def control_def)

lemma failure_does_not_reach_loop:
  assumes inv: "queue_inv s" and ip: "n \<in> set (in_progress s)"
  shows "control (resume (settle n (Inl e) s)) = control (resume (settle n (Inr r) s))"
proof -
  have "control (loop (settle n (Inl e) s)) = control (loop (settle n (Inr r) s))"
    using ip by (cases "executionQueue s") (simp_all add: loop_def control_def settle_def)
  then show ?thesis
    unfolding resume_after_settle[OF inv ip] by (simp add: control_loop_effects)
qed

lemma next_unit_starts_after_failure:
  assumes inv: "queue_inv s" and ip: "n \<in> set (in_progress s)" and q: "executionQueue s = (m, c) # rest"
  shows "effects (resume (settle n (Inl e) s)) =
           effects s @ [LogError ''Error parsing'' e] @ (if parseErrorHandler s then [Hook e] else []) @ [Rej n e, Reject n e]
             @ [LogError ''Error executing queue'' e, Call m c]
       \<and> in_progress (resume (settle n (Inl e) s)) = [m]
       \<and> executionQueue (resume (settle n (Inl e) s)) = rest"
proof -
  have "in_progress s = [n]" using inv ip by (auto simp: queue_inv_def)
  then show ?thesis
    unfolding resume_after_settle[OF inv ip] using q ip by (simp add: loop_def settle_def)
qed

lemma round_idle: "queue_inv s \<Longrightarrow> \<not> executionQueueRunning s \<Longrightarrow> settle_and_resume outcome s = s"
  by (simp add: settle_and_resume_def queue_inv_def resume_def)

lemma drive_idle: "queue_inv s \<Longrightarrow> \<not> executionQueueRunning s \<Longrightarrow> drive outcome k s = s"
  by (induction k) (simp_all add: round_idle)

lemma round_inv: "queue_inv s \<Longrightarrow> queue_inv (settle_and_resume outcome s)"
  unfolding settle_and_resume_def by (cases "in_progress s") (simp_all add: queue_inv_step queue_inv_resume queue_inv_settle)

lemma round_units:
  "calls (effects (settle_and_resume outcome s)) @ executionQueue (settle_and_resume outcome s) = calls (effects s) @ executionQueue s"
  unfolding settle_and_resume_def by (cases "in_progress s") (simp_all add: resume_units settle_units)

lemma round_running:
  assumes inv: "queue_inv s" and run: "executionQueueRunning s"
  shows "executionQueue (settle_and_resume outcome s) = tl (executionQueue s)
       \<and> (executionQueueRunning (settle_and_resume outcome s) \<longleftrightarrow> executionQueue s \<noteq> [])"
proof -
  obtain n where n: "awaited s = Some n"
     "(in_progress s = [n] \<and> settled s n = None) \<or> (in_progress s = [] \<and> settled s n \<noteq> None)"
    using inv run by (auto simp: queue_inv_def)
  from n(2) show ?thesis
  proof
    assume a: "in_progress s = [n] \<and> settled s n = None"
    then have ip: "n \<in> set (in_progress s)" by simp
    have "settle_and_resume outcome s = resume (settle n (outcome n) s)" using a by (simp add: settle_and_resume_def)
    then show ?thesis unfolding resume_after_settle[OF inv ip] using run ip
      by (cases "outcome n"; cases "executionQueue s") (simp_all add: loop_def settle_def)
  next
    assume a: "in_progress s = [] \<and> settled s n \<noteq> None"
    then have "settle_and_resume outcome s = resume s" by (simp add: settle_and_resume_def)
    then show ?thesis using a n(1) run
      by (cases "executionQueue s") (auto simp: resume_def loop_def split: sum.splits)
  qed
qed

lemma drive_drains:
  "queue_inv s \<Longrightarrow> length (executionQueue s) < k \<Longrightarrow>
   \<not> executionQueueRunning (drive outcome k s)
   \<and> executionQueue (drive outcome k s) = []
   \<and> in_progress (drive outcome k s) = []
   \<and> calls (effects (drive outcome k s)) = calls (effects s) @ executionQueue s"
proof (induction k arbitrary: s)
  case 0
  then show ?case by simp
next
  case (Suc k)
  show ?case
  proof (cases "executionQueueRunning s")
    case False
    have "drive outcome (Suc k) s = s" using drive_idle[OF Suc.prems(1) False] .
    moreover have "executionQueue s = [] \<and> in_progress s = []"
      using Suc.prems(1) False by (simp add: queue_inv_def)
    ultimately show ?thesis using False by simp
  next
    case True
    let ?s = "settle_and_resume outcome s"
    have inv': "queue_inv ?s" using Suc.prems round_inv by blast
    have r: "executionQueue ?s = tl (executionQueue s)"
       "executionQueueRunning ?s \<longleftrightarrow> executionQueue s \<noteq> []"
      using round_running[OF Suc.prems(1) True] by simp_all
    show ?thesis
    proof (cases "executionQueue s")
      case Nil
      then have idle: "\<not> executionQueueRunning ?s" using r by simp
      have "drive outcome (Suc k) s = ?s" using drive_idle[OF inv' idle] by simp
      moreover have "calls (effects ?s) = calls (effects s) @ executionQueue s"
        using round_units[of outcome s] r Nil by simp
      moreover have "in_progress ?s = []" using inv' idle by (simp add: queue_inv_def)
      ultimately show ?thesis using idle r Nil by simp
    next
      case (Cons f rest)
      then have "length (executionQueue ?s) < k" using r Suc.prems by simp
      from Suc.IH[OF inv' this] show ?thesis using round_units[of outcome s] by simp
    qed
  qed
qed


section \<open>Properties of the execution queue\<close>

text \<open>
  C1.  Let \<open>s\<close> be the state after any sequence of inputs (submissions by \<^verbatim>\<open>parse\<close> or
  \<^verbatim>\<open>render\<close>, settlings of engine calls, continuations of the loop, in any interleaving) from
  the initial state.  Then: the engine calls made so far, followed by the pending units, are the
  submitted calls in the order of their submission; at most one engine call is in progress; a
  submission while the flag is set only appends the unit; while the flag is clear nothing is
  pending or in progress, and a submission sets the flag and makes the engine call of the new unit
  at once, so the loop can be started again after it has stopped; and a step clears the flag
  exactly when it is the continuation of the loop after a settled unit and the pending sequence
  is empty.
\<close>

theorem queue_is_fifo_and_single_flight:
  assumes s: "s = exec ins (initial h)"
  shows "calls (effects s) @ executionQueue s = zip [0..<length (submissions ins)] (submissions ins)
       \<and> length (in_progress s) \<le> 1
       \<and> (executionQueueRunning s \<longrightarrow>
            step s (Submit c) =
              s\<lparr>executionQueue := executionQueue s @ [(submitted s, c)], submitted := Suc (submitted s)\<rparr>)
       \<and> (\<not> executionQueueRunning s \<longrightarrow>
            executionQueue s = [] \<and> in_progress s = []
            \<and> step s (Submit c) =
                s\<lparr>executionQueue := [], submitted := Suc (submitted s), executionQueueRunning := True,
                  awaited := Some (submitted s), in_progress := [submitted s],
                  effects := effects s @ [Call (submitted s) c]\<rparr>)
       \<and> (\<forall>i. (executionQueueRunning s \<and> \<not> executionQueueRunning (step s i)) \<longleftrightarrow>
                (i = Resume \<and> (\<exists>n out. awaited s = Some n \<and> settled s n = Some out) \<and> executionQueue s = []))"
proof -
  have inv: "queue_inv s" unfolding s by (intro queue_inv_exec queue_inv_initial)
  have c1: "calls (effects s) @ executionQueue s = zip [0..<length (submissions ins)] (submissions ins)"
    unfolding s using fifo_exec by blast
  have c2: "length (in_progress s) \<le> 1" using inv by (rule single_flight)
  have c3: "executionQueueRunning s \<longrightarrow>
            step s (Submit c) =
              s\<lparr>executionQueue := executionQueue s @ [(submitted s, c)], submitted := Suc (submitted s)\<rparr>"
    by (simp add: submit_while_running)
  have c4: "\<not> executionQueueRunning s \<longrightarrow>
            executionQueue s = [] \<and> in_progress s = []
            \<and> step s (Submit c) =
                s\<lparr>executionQueue := [], submitted := Suc (submitted s), executionQueueRunning := True,
                  awaited := Some (submitted s), in_progress := [submitted s],
                  effects := effects s @ [Call (submitted s) c]\<rparr>"
    using submit_while_idle[OF inv] inv by (simp add: queue_inv_def)
  have c5: "\<forall>i. (executionQueueRunning s \<and> \<not> executionQueueRunning (step s i)) \<longleftrightarrow>
                (i = Resume \<and> (\<exists>n out. awaited s = Some n \<and> settled s n = Some out) \<and> executionQueue s = [])"
    using flag_cleared_iff[OF inv] by blast
  show ?thesis using c1 c2 c3 c4 c5 by blast
qed

theorem queue_is_fifo_and_single_flight_witness:
  "calls (effects (exec [Submit ''a'', Submit ''b'', Settle 0 (Inl (Opaque ''x'')), Submit ''c'', Resume,
                         Settle 1 (Inr True), Resume] (initial False)))
     = [(0, ''a''), (1, ''b''), (2, ''c'')]
   \<and> executionQueue (exec [Submit ''a'', Submit ''b'', Settle 0 (Inl (Opaque ''x'')), Submit ''c'', Resume,
                         Settle 1 (Inr True), Resume] (initial False)) = []
   \<and> in_progress (exec [Submit ''a'', Submit ''b'', Settle 0 (Inl (Opaque ''x'')), Submit ''c'', Resume,
                         Settle 1 (Inr True), Resume] (initial False)) = [2]
   \<and> calls (effects (exec [Submit ''a'', Submit ''b'', Settle 0 (Inl (Opaque ''x'')), Submit ''c'', Resume,
                         Settle 1 (Inr True), Resume] (initial False)))
     @ executionQueue (exec [Submit ''a'', Submit ''b'', Settle 0 (Inl (Opaque ''x'')), Submit ''c'', Resume,
                         Settle 1 (Inr True), Resume] (initial False))
     = zip [0..<3] [''a'', ''b'', ''c'']"
proof -
  let ?ins = "[Submit ''a'', Submit ''b'', Settle 0 (Inl (Opaque ''x'')), Submit ''c'', Resume,
               Settle 1 (Inr True), Resume] :: (string, bool) input list"
  let ?s = "exec ?ins (initial False)"
  have e: "effects ?s =
     [Call 0 ''a'', LogError ''Error parsing'' (Opaque ''x''), Rej 0 (Opaque ''x''), Reject 0 (Opaque ''x''),
      LogError ''Error executing queue'' (Opaque ''x''), Call 1 ''b'', Res 1 True, Resolve 1 True, Call 2 ''c'']"
    by (simp add: exec_def initial_def submit_def executeQueue_def loop_def settle_def resume_def)
  have q: "executionQueue ?s = []"
    by (simp add: exec_def initial_def submit_def executeQueue_def loop_def settle_def resume_def)
  have p: "in_progress ?s = [2]"
    by (simp add: exec_def initial_def submit_def executeQueue_def loop_def settle_def resume_def)
  have n: "submissions ?ins = [''a'', ''b'', ''c'']" by (simp add: submissions_def)
  have "calls (effects ?s) @ executionQueue ?s = zip [0..<length (submissions ?ins)] (submissions ?ins)"
    using queue_is_fifo_and_single_flight[OF refl, where ins = ?ins and h = False and c = "''z''"]
    by (elim conjE)
  then have z: "calls (effects ?s) @ executionQueue ?s = zip [0..<3] [''a'', ''b'', ''c'']"
    unfolding n by (simp add: numeral_3_eq_3)
  have c: "calls (effects ?s) = [(0, ''a''), (1, ''b''), (2, ''c'')]" unfolding e by simp
  show ?thesis using c q p z by blast
qed

text \<open>
  C7.  Let \<open>s\<close> be a state reached from the initial state in which the engine call of unit \<open>n\<close>
  is in progress, and let that call fail with \<open>e\<close>.  Then the handler logs the failure, calls
  the global hook with \<open>e\<close> when it is set, and after that rejects the promise of the unit's
  caller with \<open>e\<close>; no other caller's promise is touched.  The loop catches the rejection: its
  continuation logs it, and then the queue, the flag, the awaited unit and the calls in progress
  are the same as after a success of unit \<open>n\<close>.  And however the engine calls end (given by
  \<open>outcome\<close>, which may make each of them fail), once each has settled and the loop has
  continued after it, every submitted unit has had its engine call, in the order of submission,
  and the flag is clear.
\<close>

theorem unit_failure_is_isolated:
  assumes s: "s = exec ins (initial h)" and n: "n \<in> set (in_progress s)"
  shows "effects (step s (Settle n (Inl e))) =
           effects s @ [LogError ''Error parsing'' e] @ (if parseErrorHandler s then [Hook e] else []) @ [Rej n e, Reject n e]
       \<and> delivered (step s (Settle n (Inl e))) n = Some (Inl e)
       \<and> (\<forall>m. m \<noteq> n \<longrightarrow> delivered (step s (Settle n (Inl e))) m = delivered s m)
       \<and> effects (step (step s (Settle n (Inl e))) Resume) =
           effects (step s (Settle n (Inl e))) @ LogError ''Error executing queue'' e #
             (case executionQueue s of [] \<Rightarrow> [] | f # rest \<Rightarrow> [Call (fst f) (snd f)])
       \<and> control (step (step s (Settle n (Inl e))) Resume) = control (step (step s (Settle n (Inr r))) Resume)
       \<and> \<not> executionQueueRunning (drive outcome (Suc (length (executionQueue s))) s)
       \<and> calls (effects (drive outcome (Suc (length (executionQueue s))) s)) =
           zip [0..<length (submissions ins)] (submissions ins)"
proof -
  have inv: "queue_inv s" unfolding s by (intro queue_inv_exec queue_inv_initial)
  have c1: "effects (step s (Settle n (Inl e))) =
           effects s @ [LogError ''Error parsing'' e] @ (if parseErrorHandler s then [Hook e] else []) @ [Rej n e, Reject n e]"
    using settle_failure[OF n] by simp
  have c2: "delivered (step s (Settle n (Inl e))) n = Some (Inl e)"
    using settle_failure[OF n] by simp
  have c3: "\<forall>m. m \<noteq> n \<longrightarrow> delivered (step s (Settle n (Inl e))) m = delivered s m"
    using n by (simp add: settle_def)
  have c4: "effects (step (step s (Settle n (Inl e))) Resume) =
           effects (step s (Settle n (Inl e))) @ LogError ''Error executing queue'' e #
             (case executionQueue s of [] \<Rightarrow> [] | f # rest \<Rightarrow> [Call (fst f) (snd f)])"
    using resume_after_settle[OF inv n, of "Inl e"] n
    by (cases "executionQueue s") (simp_all add: loop_def settle_def)
  have c5: "control (step (step s (Settle n (Inl e))) Resume) = control (step (step s (Settle n (Inr r))) Resume)"
    using failure_does_not_reach_loop[OF inv n] by simp
  have d: "\<not> executionQueueRunning (drive outcome (Suc (length (executionQueue s))) s)
       \<and> calls (effects (drive outcome (Suc (length (executionQueue s))) s)) = calls (effects s) @ executionQueue s"
    using drive_drains[OF inv, of "Suc (length (executionQueue s))" outcome] by simp
  have f: "calls (effects s) @ executionQueue s = zip [0..<length (submissions ins)] (submissions ins)"
    unfolding s using fifo_exec by blast
  show ?thesis using c1 c2 c3 c4 c5 d f by simp
qed

theorem unit_failure_is_isolated_witness:
  "in_progress (exec [SetParseErrorHandler, Submit ''a'', Submit ''b''] (initial False)
                 :: (string, bool) queue_state) = [0]
   \<and> effects (step (exec [SetParseErrorHandler, Submit ''a'', Submit ''b''] (initial False)
                       :: (string, bool) queue_state)
                (Settle 0 (Inl (Opaque ''x'')))) =
       [Call 0 ''a'', LogError ''Error parsing'' (Opaque ''x''), Hook (Opaque ''x''),
        Rej 0 (Opaque ''x''), Reject 0 (Opaque ''x'')]
   \<and> calls (effects (drive (\<lambda>n. Inl (Opaque ''x'')) 2
                (exec [SetParseErrorHandler, Submit ''a'', Submit ''b''] (initial False)
                   :: (string, bool) queue_state))) =
       [(0, ''a''), (1, ''b'')]"
proof -
  let ?ins = "[SetParseErrorHandler, Submit ''a'', Submit ''b''] :: (string, bool) input list"
  let ?s = "exec ?ins (initial False)"
  have p: "in_progress ?s = [0]"
    by (simp add: exec_def initial_def submit_def executeQueue_def loop_def)
  have n: "0 \<in> set (in_progress ?s)" unfolding p by simp
  have e: "effects ?s = [Call 0 ''a'']"
    by (simp add: exec_def initial_def submit_def executeQueue_def loop_def)
  have hk: "parseErrorHandler ?s"
    by (simp add: exec_def initial_def submit_def executeQueue_def loop_def)
  have q: "executionQueue ?s = [(1, ''b'')]"
    by (simp add: exec_def initial_def submit_def executeQueue_def loop_def)
  have sb: "submissions ?ins = [''a'', ''b'']" by (simp add: submissions_def)
  note t = unit_failure_is_isolated[OF refl n, where e = "Opaque ''x''" and r = True
             and outcome = "\<lambda>n. Inl (Opaque ''x'')"]
  have a: "effects (step ?s (Settle 0 (Inl (Opaque ''x'')))) =
       effects ?s @ [LogError ''Error parsing'' (Opaque ''x'')] @ (if parseErrorHandler ?s then [Hook (Opaque ''x'')] else [])
         @ [Rej 0 (Opaque ''x''), Reject 0 (Opaque ''x'')]"
    using t by (elim conjE)
  have b: "calls (effects (drive (\<lambda>n. Inl (Opaque ''x'')) (Suc (length (executionQueue ?s))) ?s)) =
           zip [0..<length (submissions ?ins)] (submissions ?ins)"
    using t by (elim conjE)
  have a': "effects (step ?s (Settle 0 (Inl (Opaque ''x'')))) =
       [Call 0 ''a'', LogError ''Error parsing'' (Opaque ''x''), Hook (Opaque ''x''),
        Rej 0 (Opaque ''x''), Reject 0 (Opaque ''x'')]"
    using a unfolding e using hk by simp
  have l: "Suc (length (executionQueue ?s)) = 2" unfolding q by simp
  have z: "zip [0..<length (submissions ?ins)] (submissions ?ins) = [(0, ''a''), (1, ''b'')]"
    unfolding sb by (simp add: upt_rec)
  have b': "calls (effects (drive (\<lambda>n. Inl (Opaque ''x'')) 2 ?s)) = [(0, ''a''), (1, ''b'')]"
    using b unfolding l z .
  show ?thesis using p a' b' by blast
qed

end
